theory Spec2Isabelle
  imports Main "HOL-Library.Word"
begin

unbundle bit_operations_syntax

section \<open>The noise handler of \<^verbatim>\<open>Utils/noise-handler.ts\<close>\<close>

text \<open>
  The handler is a closure over nine mutable variables (\<open>hash\<close>, \<open>salt\<close>, \<open>encKey\<close>,
  \<open>decKey\<close>, \<open>readCounter\<close>, \<open>writeCounter\<close>, \<open>isFinished\<close>, \<open>sentIntro\<close>, \<open>inBytes\<close>).
  They are a record here, every method takes the record and returns the updated one, and a
  method that can throw returns the record as it stands at the throw together with the
  error: an exception does not undo the assignments made before it.

  What the file imports and does not define (the hash, the key derivation, the AES-GCM
  cipher of Node's \<open>crypto\<close>, the curve, the protobuf and binary-node decoders, the two
  constants of \<open>Defaults\<close>) is a parameter: the record \<open>env\<close>. A primitive that can throw
  returns an option. A \<open>Buffer\<close> or \<open>Uint8Array\<close> is a list of bytes of any length: the
  largest buffer that the runtime allocates is not part of the model. The logger is left
  out.
\<close>

subsection \<open>Bytes, buffers and JavaScript numbers\<close>

type_synonym byte = "8 word"
type_synonym bytes = "byte list"

datatype error =
    CipherError       \<comment> \<open>thrown by \<open>createCipheriv\<close>, \<open>createDecipheriv\<close>, \<open>setAuthTag\<close>, \<open>update\<close> or \<open>final\<close>\<close>
  | RangeError        \<comment> \<open>\<open>ERR_OUT_OF_RANGE\<close> of a \<open>Buffer\<close> write\<close>
  | CurveError        \<comment> \<open>thrown by \<open>Curve.sharedKey\<close>\<close>
  | ProtoError        \<comment> \<open>thrown while decoding the certificate\<close>
  | NodeError         \<comment> \<open>thrown by \<open>decodeBinaryNode\<close>\<close>
  | CertMismatch      \<comment> \<open>\<open>new Boom('certification match failed', { statusCode: 400 })\<close>\<close>

text \<open>
  \<open>slice(start, end)\<close> of a \<open>Uint8Array\<close> or \<open>Buffer\<close>: a negative index counts from the
  end, and both indices are clamped to the array.
\<close>

definition rel_index :: "nat \<Rightarrow> int \<Rightarrow> nat" where
  "rel_index len i = (if i < 0 then nat (max (int len + i) 0) else min (nat i) len)"

definition slice_bytes :: "'a list \<Rightarrow> int \<Rightarrow> int \<Rightarrow> 'a list" where
  "slice_bytes xs start end =
     (let k = rel_index (length xs) start; f = rel_index (length xs) end
      in take (f - k) (drop k xs))"

definition slice_from :: "'a list \<Rightarrow> int \<Rightarrow> 'a list" where
  "slice_from xs start = slice_bytes xs start (int (length xs))"

text \<open>
  The counters are JavaScript numbers holding non-negative integers. \<open>c += 1\<close> is exact
  below \<open>2^53\<close>; at \<open>2^53\<close> the sum rounds back to \<open>2^53\<close>.
\<close>

definition add1 :: "nat \<Rightarrow> nat" where
  "add1 c = (if c < 2 ^ 53 then c + 1 else c)"

text \<open>\<open>ToInt32\<close>, applied by \<open>>>\<close> and \<open>&\<close> to their operands.\<close>

definition ToInt32 :: "nat \<Rightarrow> int" where
  "ToInt32 n = (let m = int (n mod 2 ^ 32) in if m \<ge> 2 ^ 31 then m - 2 ^ 32 else m)"

text \<open>\<open>DataView.setUint32(byteOffset, value)\<close>: the value modulo \<open>2^32\<close>, big-endian.\<close>

definition setUint32 :: "bytes \<Rightarrow> nat \<Rightarrow> nat \<Rightarrow> bytes" where
  "setUint32 buf byteOffset v =
     (let w = v mod 2 ^ 32
      in buf[byteOffset := of_nat (w div 2 ^ 24),
             byteOffset + 1 := of_nat (w div 2 ^ 16),
             byteOffset + 2 := of_nat (w div 2 ^ 8),
             byteOffset + 3 := of_nat w])"

text \<open>\<open>Buffer.writeUInt8\<close> and \<open>Buffer.writeUInt16BE\<close> throw when the value is out of range.\<close>

definition writeUInt8 :: "bytes \<Rightarrow> int \<Rightarrow> nat \<Rightarrow> error + bytes" where
  "writeUInt8 buf v off =
     (if v < 0 \<or> v > 255 \<or> off + 1 > length buf then Inl RangeError
      else Inr (buf[off := of_int v]))"

definition writeUInt16BE :: "bytes \<Rightarrow> int \<Rightarrow> nat \<Rightarrow> error + bytes" where
  "writeUInt16BE buf v off =
     (if v < 0 \<or> v > 65535 \<or> off + 2 > length buf then Inl RangeError
      else Inr (buf[off := of_int (v div 256), off + 1 := of_int v]))"

text \<open>\<open>frame.set(src, offset)\<close>, for a source that fits.\<close>

definition buf_set :: "bytes \<Rightarrow> bytes \<Rightarrow> nat \<Rightarrow> bytes" where
  "buf_set buf src off = take off buf @ src @ drop (off + length src) buf"

definition readUInt8 :: "bytes \<Rightarrow> nat \<Rightarrow> nat" where
  "readUInt8 buf off = unat (buf ! off)"

definition readUInt16BE :: "bytes \<Rightarrow> nat \<Rightarrow> nat" where
  "readUInt16BE buf off = unat (buf ! off) * 256 + unat (buf ! (off + 1))"

text \<open>The number that a byte string is, read big-endian.\<close>

definition be_val :: "bytes \<Rightarrow> nat" where
  "be_val bs = foldl (\<lambda>a b. a * 256 + unat b) 0 bs"

subsection \<open>The imported primitives\<close>

record 'n env =
  NOISE_MODE :: bytes
  NOISE_WA_HEADER :: bytes
  sha256 :: "bytes \<Rightarrow> bytes"
  hkdf :: "bytes \<Rightarrow> nat \<Rightarrow> bytes \<Rightarrow> bytes"
    \<comment> \<open>\<open>hkdf(buffer, expandedLength, { salt, info: '' })\<close>\<close>
  aes_gcm_encrypt :: "bytes \<Rightarrow> bytes \<Rightarrow> nat \<Rightarrow> bytes \<Rightarrow> bytes \<Rightarrow> (bytes \<times> bytes) option"
    \<comment> \<open>key, iv, authTagLength, AAD, plaintext: \<open>update @ final\<close> and \<open>getAuthTag\<close>\<close>
  aes_gcm_decrypt :: "bytes \<Rightarrow> bytes \<Rightarrow> bytes \<Rightarrow> bytes \<Rightarrow> bytes \<Rightarrow> bytes option"
    \<comment> \<open>key, iv, AAD, tag, ciphertext: \<open>update @ final\<close>, \<open>None\<close> when anything throws\<close>
  sharedKey :: "bytes \<Rightarrow> bytes \<Rightarrow> bytes option"
  NoiseCertificate_decode :: "bytes \<Rightarrow> bytes option"
    \<comment> \<open>the \<open>details\<close> field\<close>
  NoiseCertificateDetails_decode :: "bytes \<Rightarrow> bytes option"
    \<comment> \<open>the \<open>key\<close> field\<close>
  decodeBinaryNode :: "bytes \<Rightarrow> 'n option"

subsection \<open>The state and the methods\<close>

record state =
  hash :: bytes
  salt :: bytes
  encKey :: bytes
  decKey :: bytes
  readCounter :: nat
  writeCounter :: nat
  isFinished :: bool
  sentIntro :: bool
  inBytes :: bytes

record KeyPair =
  public_key :: bytes
  private_key :: bytes

record serverHello =
  ephemeral :: bytes
  static :: bytes
  payload :: bytes

datatype 'n frame = Raw bytes | Node 'n

definition TAG_LENGTH :: nat where
  "TAG_LENGTH = drop_bit 3 128"

definition generateIV :: "nat \<Rightarrow> bytes" where
  "generateIV counter = setUint32 (replicate 12 0) 8 counter"

definition authenticate :: "'n env \<Rightarrow> state \<Rightarrow> bytes \<Rightarrow> state" where
  "authenticate E s data =
     (if \<not> isFinished s then s\<lparr>hash := sha256 E (hash s @ data)\<rparr> else s)"

definition encrypt :: "'n env \<Rightarrow> state \<Rightarrow> bytes \<Rightarrow> state \<times> (error + bytes)" where
  "encrypt E s plaintext =
     (case aes_gcm_encrypt E (encKey s) (generateIV (writeCounter s)) TAG_LENGTH (hash s) plaintext of
        None \<Rightarrow> (s, Inl CipherError)
      | Some (ct, tag) \<Rightarrow>
          (let result = ct @ tag;
               s1 = s\<lparr>writeCounter := add1 (writeCounter s)\<rparr>
           in (authenticate E s1 result, Inr result)))"

definition decrypt :: "'n env \<Rightarrow> state \<Rightarrow> bytes \<Rightarrow> state \<times> (error + bytes)" where
  "decrypt E s ciphertext =
     (let iv = generateIV (if isFinished s then readCounter s else writeCounter s);
          enc = slice_bytes ciphertext 0 (int (length ciphertext) - int TAG_LENGTH);
          tag = slice_from ciphertext (int (length ciphertext) - int TAG_LENGTH)
      in (case aes_gcm_decrypt E (decKey s) iv (hash s) tag enc of
            None \<Rightarrow> (s, Inl CipherError)
          | Some result \<Rightarrow>
              (let s1 = (if isFinished s then s\<lparr>readCounter := add1 (readCounter s)\<rparr>
                         else s\<lparr>writeCounter := add1 (writeCounter s)\<rparr>)
               in (authenticate E s1 ciphertext, Inr result))))"

definition localHKDF :: "'n env \<Rightarrow> state \<Rightarrow> bytes \<Rightarrow> bytes \<times> bytes" where
  "localHKDF E s data =
     (let key = hkdf E data 64 (salt s) in (slice_bytes key 0 32, slice_from key 32))"

definition mixIntoKey :: "'n env \<Rightarrow> state \<Rightarrow> bytes \<Rightarrow> state" where
  "mixIntoKey E s data =
     (case localHKDF E s data of
        (write, read) \<Rightarrow>
          s\<lparr>salt := write, encKey := read, decKey := read, readCounter := 0, writeCounter := 0\<rparr>)"

definition finishInit :: "'n env \<Rightarrow> state \<Rightarrow> state" where
  "finishInit E s =
     (case localHKDF E s [] of
        (write, read) \<Rightarrow>
          s\<lparr>encKey := write, decKey := read, hash := [], readCounter := 0, writeCounter := 0,
            isFinished := True\<rparr>)"

definition makeNoiseHandler :: "'n env \<Rightarrow> bytes \<Rightarrow> state" where
  "makeNoiseHandler E publicKey =
     (let data = NOISE_MODE E;
          h = (if length data = 32 then data else sha256 E data);
          s0 = \<lparr>hash = h, salt = h, encKey = h, decKey = h, readCounter = 0, writeCounter = 0,
                isFinished = False, sentIntro = False, inBytes = []\<rparr>
      in authenticate E (authenticate E s0 (NOISE_WA_HEADER E)) publicKey)"

definition processHandshake ::
  "'n env \<Rightarrow> bytes \<Rightarrow> state \<Rightarrow> serverHello \<Rightarrow> KeyPair \<Rightarrow> state \<times> (error + bytes)" where
  "processHandshake E privateKey s hello noiseKey =
     (let s1 = authenticate E s (ephemeral hello) in
      case sharedKey E privateKey (ephemeral hello) of
        None \<Rightarrow> (s1, Inl CurveError)
      | Some k1 \<Rightarrow>
      (case decrypt E (mixIntoKey E s1 k1) (static hello) of
        (s3, Inl e) \<Rightarrow> (s3, Inl e)
      | (s3, Inr decStaticContent) \<Rightarrow>
      (case sharedKey E privateKey decStaticContent of
        None \<Rightarrow> (s3, Inl CurveError)
      | Some k2 \<Rightarrow>
      (case decrypt E (mixIntoKey E s3 k2) (payload hello) of
        (s5, Inl e) \<Rightarrow> (s5, Inl e)
      | (s5, Inr certDecoded) \<Rightarrow>
      (case NoiseCertificate_decode E certDecoded of
        None \<Rightarrow> (s5, Inl ProtoError)
      | Some certDetails \<Rightarrow>
      (case NoiseCertificateDetails_decode E certDetails of
        None \<Rightarrow> (s5, Inl ProtoError)
      | Some certKey \<Rightarrow>
      if decStaticContent \<noteq> certKey then (s5, Inl CertMismatch)
      else
      (case encrypt E s5 (public_key noiseKey) of
        (s6, Inl e) \<Rightarrow> (s6, Inl e)
      | (s6, Inr keyEnc) \<Rightarrow>
      (case sharedKey E (private_key noiseKey) (ephemeral hello) of
        None \<Rightarrow> (s6, Inl CurveError)
      | Some k3 \<Rightarrow> (mixIntoKey E s6 k3, Inr keyEnc)))))))))"

definition encodeFrame :: "'n env \<Rightarrow> state \<Rightarrow> bytes \<Rightarrow> state \<times> (error + bytes)" where
  "encodeFrame E s data0 =
     (case (if isFinished s then encrypt E s data0 else (s, Inr data0)) of
        (s1, Inl e) \<Rightarrow> (s1, Inl e)
      | (s1, Inr data) \<Rightarrow>
          (let introSize = (if sentIntro s1 then 0 else length (NOISE_WA_HEADER E));
              frame = replicate (introSize + 3 + length data) 0;
              frame1 = (if \<not> sentIntro s1 then buf_set frame (NOISE_WA_HEADER E) 0 else frame);
              s2 = (if \<not> sentIntro s1 then s1\<lparr>sentIntro := True\<rparr> else s1)
          in (case writeUInt8 frame1 (drop_bit 16 (ToInt32 (length data))) introSize of
                Inl e \<Rightarrow> (s2, Inl e)
              | Inr frame2 \<Rightarrow>
                  (case writeUInt16BE frame2 (65535 AND ToInt32 (length data)) (introSize + 1) of
                     Inl e \<Rightarrow> (s2, Inl e)
                   | Inr frame3 \<Rightarrow> (s2, Inr (buf_set frame3 data (introSize + 3)))))))"

definition getBytesSize :: "state \<Rightarrow> nat option" where
  "getBytesSize s =
     (if length (inBytes s) \<ge> 3
      then Some (push_bit 16 (readUInt8 (inBytes s) 0) OR readUInt16BE (inBytes s) 1)
      else None)"

text \<open>
  The loop of \<open>decodeFrame\<close>. \<open>onFrame\<close> is a callback of the caller: the frames it is
  called with are collected, in order, in \<open>out\<close>, and the callback is taken to return
  without calling the handler. A zero \<open>size\<close> is falsy, as is the \<open>undefined\<close> of a buffer
  shorter than three bytes. The loop ends: every round takes at least four bytes off
  \<open>inBytes\<close>.
\<close>

function decodeLoop ::
  "'n env \<Rightarrow> state \<Rightarrow> 'n frame list \<Rightarrow> state \<times> 'n frame list \<times> error option" where
  "decodeLoop E s out =
     (case getBytesSize s of
        None \<Rightarrow> (s, out, None)
      | Some sz \<Rightarrow>
          if sz \<noteq> 0 \<and> length (inBytes s) \<ge> sz + 3 then
            (let frame = slice_bytes (inBytes s) 3 (int sz + 3);
                 s1 = s\<lparr>inBytes := slice_from (inBytes s) (int sz + 3)\<rparr>
             in if isFinished s1 then
                  (case decrypt E s1 frame of
                     (s2, Inl e) \<Rightarrow> (s2, out, Some e)
                   | (s2, Inr result) \<Rightarrow>
                       (case decodeBinaryNode E result of
                          None \<Rightarrow> (s2, out, Some NodeError)
                        | Some node \<Rightarrow> decodeLoop E s2 (out @ [Node node])))
                else decodeLoop E s1 (out @ [Raw frame]))
          else (s, out, None))"
  by pat_completeness auto
termination
proof (relation "measure (\<lambda>(E, s, out). length (inBytes s))")
  show "wf (measure (\<lambda>(E :: 'n env, s, out :: 'n frame list). length (inBytes s)))"
    by simp
next
  fix E :: "'n env" and s s1 s2 :: state and out :: "'n frame list" and node :: 'n
    and sz frame y
  assume "sz \<noteq> 0 \<and> sz + 3 \<le> length (inBytes s)"
    and "s1 = s\<lparr>inBytes := slice_from (inBytes s) (int sz + 3)\<rparr>"
    and "(s2, y) = decrypt E s1 frame"
  then show "((E, s2, out @ [Node node]), E, s, out) \<in> measure (\<lambda>(E, s, out). length (inBytes s))"
    by (auto simp add: decrypt_def authenticate_def slice_from_def slice_bytes_def rel_index_def Let_def
        split: option.splits if_splits)
next
  fix E :: "'n env" and s s1 :: state and out :: "'n frame list" and sz frame
  assume "sz \<noteq> 0 \<and> sz + 3 \<le> length (inBytes s)"
    and "s1 = s\<lparr>inBytes := slice_from (inBytes s) (int sz + 3)\<rparr>"
  then show "((E, s1, out @ [Raw frame]), E, s, out) \<in> measure (\<lambda>(E, s, out). length (inBytes s))"
    by (auto simp add: slice_from_def slice_bytes_def rel_index_def Let_def)
qed

declare decodeLoop.simps [simp del]

definition decodeFrame ::
  "'n env \<Rightarrow> state \<Rightarrow> bytes \<Rightarrow> state \<times> 'n frame list \<times> error option" where
  "decodeFrame E s newData = decodeLoop E (s\<lparr>inBytes := inBytes s @ newData\<rparr>) []"

subsection \<open>Traces\<close>

text \<open>
  The five methods that work on the symmetric state, as operations of a trace. \<open>step\<close> is
  the state a call leaves behind, whether it returned or threw.
\<close>

datatype op =
    Authenticate bytes
  | Encrypt bytes
  | Decrypt bytes
  | MixIntoKey bytes
  | FinishInit

fun step :: "'n env \<Rightarrow> state \<Rightarrow> op \<Rightarrow> state" where
  "step E s (Authenticate d) = authenticate E s d"
| "step E s (Encrypt p) = fst (encrypt E s p)"
| "step E s (Decrypt c) = fst (decrypt E s c)"
| "step E s (MixIntoKey d) = mixIntoKey E s d"
| "step E s FinishInit = finishInit E s"

fun run :: "'n env \<Rightarrow> state \<Rightarrow> op list \<Rightarrow> state" where
  "run E s [] = s"
| "run E s (x # xs) = run E (step E s x) xs"


fun nonce_use :: "'n env \<Rightarrow> state \<Rightarrow> op \<Rightarrow> (bytes \<times> bytes) option" where
  "nonce_use E s (Encrypt p) =
     (case snd (encrypt E s p) of
        Inl e \<Rightarrow> None
      | Inr r \<Rightarrow> Some (encKey s, generateIV (writeCounter s)))"
| "nonce_use E s (Decrypt c) =
     (case snd (decrypt E s c) of
        Inl e \<Rightarrow> None
      | Inr r \<Rightarrow> Some (decKey s, generateIV (if isFinished s then readCounter s else writeCounter s)))"
| "nonce_use E s _ = None"

fun uses :: "'n env \<Rightarrow> state \<Rightarrow> op list \<Rightarrow> (bytes \<times> bytes) list" where
  "uses E s [] = []"
| "uses E s (x # xs) =
     (case nonce_use E s x of None \<Rightarrow> [] | Some u \<Rightarrow> [u]) @ uses E (step E s x) xs"




text \<open>
  All the methods that the handler returns, as calls. \<open>privateKey\<close> is the private key of
  the pair the handler was made with, which \<open>processHandshake\<close> reads.
\<close>

datatype call =
    Method op
  | ProcessHandshake serverHello KeyPair
  | EncodeFrame bytes
  | DecodeFrame bytes

fun call_step :: "'n env \<Rightarrow> bytes \<Rightarrow> state \<Rightarrow> call \<Rightarrow> state" where
  "call_step E privateKey s (Method x) = step E s x"
| "call_step E privateKey s (ProcessHandshake hello noiseKey) =
     fst (processHandshake E privateKey s hello noiseKey)"
| "call_step E privateKey s (EncodeFrame d) = fst (encodeFrame E s d)"
| "call_step E privateKey s (DecodeFrame d) = fst (decodeFrame E s d)"

fun calls :: "'n env \<Rightarrow> bytes \<Rightarrow> state \<Rightarrow> call list \<Rightarrow> state" where
  "calls E privateKey s [] = s"
| "calls E privateKey s (c # cs) = calls E privateKey (call_step E privateKey s c) cs"

text \<open>
  The three other methods work on the symmetric state through the five above only. The
  operations that a call of them performs, in the order of the code: an operation that
  throws is the last one, and \<open>decodeFrame\<close> decrypts every frame that it takes off the
  buffer once finished.
\<close>

definition processHandshake_ops ::
  "'n env \<Rightarrow> bytes \<Rightarrow> state \<Rightarrow> serverHello \<Rightarrow> KeyPair \<Rightarrow> op list" where
  "processHandshake_ops E privateKey s hello noiseKey =
     Authenticate (ephemeral hello) #
     (case sharedKey E privateKey (ephemeral hello) of
        None \<Rightarrow> []
      | Some k1 \<Rightarrow> MixIntoKey k1 # Decrypt (static hello) #
      (case decrypt E (mixIntoKey E (authenticate E s (ephemeral hello)) k1) (static hello) of
        (s3, Inl e) \<Rightarrow> []
      | (s3, Inr decStaticContent) \<Rightarrow>
      (case sharedKey E privateKey decStaticContent of
        None \<Rightarrow> []
      | Some k2 \<Rightarrow> MixIntoKey k2 # Decrypt (payload hello) #
      (case decrypt E (mixIntoKey E s3 k2) (payload hello) of
        (s5, Inl e) \<Rightarrow> []
      | (s5, Inr certDecoded) \<Rightarrow>
      (case NoiseCertificate_decode E certDecoded of
        None \<Rightarrow> []
      | Some certDetails \<Rightarrow>
      (case NoiseCertificateDetails_decode E certDetails of
        None \<Rightarrow> []
      | Some certKey \<Rightarrow>
      if decStaticContent \<noteq> certKey then []
      else Encrypt (public_key noiseKey) #
      (case encrypt E s5 (public_key noiseKey) of
        (s6, Inl e) \<Rightarrow> []
      | (s6, Inr keyEnc) \<Rightarrow>
      (case sharedKey E (private_key noiseKey) (ephemeral hello) of
        None \<Rightarrow> []
      | Some k3 \<Rightarrow> [MixIntoKey k3]))))))))"

function decodeLoop_ops :: "'n env \<Rightarrow> state \<Rightarrow> op list" where
  "decodeLoop_ops E s =
     (case getBytesSize s of
        None \<Rightarrow> []
      | Some sz \<Rightarrow>
          if sz \<noteq> 0 \<and> length (inBytes s) \<ge> sz + 3 then
            (let frame = slice_bytes (inBytes s) 3 (int sz + 3);
                 s1 = s\<lparr>inBytes := slice_from (inBytes s) (int sz + 3)\<rparr>
             in if isFinished s1 then
                  Decrypt frame #
                  (case decrypt E s1 frame of
                     (s2, Inl e) \<Rightarrow> []
                   | (s2, Inr result) \<Rightarrow>
                       (case decodeBinaryNode E result of
                          None \<Rightarrow> []
                        | Some node \<Rightarrow> decodeLoop_ops E s2))
                else decodeLoop_ops E s1)
          else [])"
  by pat_completeness auto
termination
proof (relation "measure (\<lambda>(E, s). length (inBytes s))")
  show "wf (measure (\<lambda>(E :: 'n env, s). length (inBytes s)))"
    by simp
next
  fix E :: "'n env" and s s1 s2 :: state and sz frame y
  assume "sz \<noteq> 0 \<and> sz + 3 \<le> length (inBytes s)"
    and "s1 = s\<lparr>inBytes := slice_from (inBytes s) (int sz + 3)\<rparr>"
    and "(s2, y) = decrypt E s1 frame"
  then show "((E, s2), E, s) \<in> measure (\<lambda>(E, s). length (inBytes s))"
    by (auto simp add: decrypt_def authenticate_def slice_from_def slice_bytes_def rel_index_def Let_def
        split: option.splits if_splits)
next
  fix E :: "'n env" and s s1 :: state and sz
  assume "sz \<noteq> 0 \<and> sz + 3 \<le> length (inBytes s)"
    and "s1 = s\<lparr>inBytes := slice_from (inBytes s) (int sz + 3)\<rparr>"
  then show "((E, s1), E, s) \<in> measure (\<lambda>(E, s). length (inBytes s))"
    by (auto simp add: slice_from_def slice_bytes_def rel_index_def Let_def)
qed

declare decodeLoop_ops.simps [simp del]

fun call_ops :: "'n env \<Rightarrow> bytes \<Rightarrow> state \<Rightarrow> call \<Rightarrow> op list" where
  "call_ops E privateKey s (Method x) = [x]"
| "call_ops E privateKey s (ProcessHandshake hello noiseKey) =
     processHandshake_ops E privateKey s hello noiseKey"
| "call_ops E privateKey s (EncodeFrame d) = (if isFinished s then [Encrypt d] else [])"
| "call_ops E privateKey s (DecodeFrame d) = decodeLoop_ops E (s\<lparr>inBytes := inBytes s @ d\<rparr>)"

fun ops_of :: "'n env \<Rightarrow> bytes \<Rightarrow> state \<Rightarrow> call list \<Rightarrow> op list" where
  "ops_of E privateKey s [] = []"
| "ops_of E privateKey s (c # cs) =
     call_ops E privateKey s c @ ops_of E privateKey (call_step E privateKey s c) cs"

text \<open>
  The symmetric state: the state without the two variables of the framer, which the five
  methods neither read nor write.
\<close>

definition cipher_state :: "state \<Rightarrow> state" where
  "cipher_state s = s\<lparr>sentIntro := False, inBytes := []\<rparr>"

text \<open>
  Feeding a sequence of chunks to \<open>decodeFrame\<close>, one call for each; the frames of all the
  calls, in order. A call that throws ends the feeding.
\<close>

fun feed :: "'n env \<Rightarrow> state \<Rightarrow> bytes list \<Rightarrow> state \<times> 'n frame list \<times> error option" where
  "feed E s [] = (s, [], None)"
| "feed E s (c # cs) =
     (case decodeFrame E s c of
        (s1, fs, Some e) \<Rightarrow> (s1, fs, Some e)
      | (s1, fs, None) \<Rightarrow> (case feed E s1 cs of (s2, gs, r) \<Rightarrow> (s2, fs @ gs, r)))"

subsection \<open>An instance of the primitives\<close>

text \<open>
  A small instance of \<open>env\<close>, to evaluate the methods on concrete inputs: a hash of 32
  bytes, a key derivation of the length asked for, and a cipher whose tag is a checksum of
  key, nonce and associated data and whose decryption accepts a tag of 4, 8 or 12 to 16
  bytes that is a prefix of the full one, as \<open>setAuthTag\<close> does when no \<open>authTagLength\<close>
  was given.
\<close>

definition test_mac :: "bytes \<Rightarrow> bytes \<Rightarrow> bytes \<Rightarrow> bytes" where
  "test_mac key iv aad = replicate 16 (sum_list (key @ iv @ aad) + 1)"

definition test_env :: "bytes env" where
  "test_env =
     \<lparr>NOISE_MODE = replicate 32 78,
      NOISE_WA_HEADER = [87, 65, 6, 2],
      sha256 = (\<lambda>x. replicate 32 (sum_list x + of_nat (length x))),
      hkdf = (\<lambda>data n slt.
         replicate (n div 2) (sum_list data + sum_list slt + 1)
         @ replicate (n - n div 2) (sum_list data + sum_list slt + 2)),
      aes_gcm_encrypt = (\<lambda>key iv n aad p. Some (map (\<lambda>b. b + 1) p, take n (test_mac key iv aad))),
      aes_gcm_decrypt = (\<lambda>key iv aad tag c.
         if length tag \<in> {4, 8, 12, 13, 14, 15, 16} \<and> tag = take (length tag) (test_mac key iv aad)
         then Some (map (\<lambda>b. b - 1) c) else None),
      sharedKey = (\<lambda>priv pub. if pub = [] then None else Some (priv @ pub)),
      NoiseCertificate_decode = (\<lambda>b. case b of [] \<Rightarrow> None | x # xs \<Rightarrow> Some xs),
      NoiseCertificateDetails_decode = (\<lambda>b. case b of [] \<Rightarrow> None | x # xs \<Rightarrow> Some xs),
      decodeBinaryNode = (\<lambda>b. if b = [] then None else Some b)\<rparr>"

text \<open>A state of the handshake phase whose hash, salt and keys are 32 equal bytes each.\<close>

definition test_state :: "byte \<Rightarrow> byte \<Rightarrow> byte \<Rightarrow> nat \<Rightarrow> state" where
  "test_state h a k w =
     \<lparr>hash = replicate 32 h, salt = replicate 32 a, encKey = replicate 32 k,
      decKey = replicate 32 k, readCounter = 0, writeCounter = w, isFinished = False,
      sentIntro = False, inBytes = []\<rparr>"

text \<open>A state of the transport phase, after the first frame was sent.\<close>

definition test_transport :: "byte \<Rightarrow> byte \<Rightarrow> nat \<Rightarrow> nat \<Rightarrow> state" where
  "test_transport ek dk rc wc =
     \<lparr>hash = [], salt = replicate 32 78, encKey = replicate 32 ek, decKey = replicate 32 dk,
      readCounter = rc, writeCounter = wc, isFinished = True, sentIntro = True, inBytes = []\<rparr>"

subsection \<open>What is expected of the cipher\<close>

text \<open>
  AES-GCM opens what it has sealed: under the key, the nonce and the associated data of
  the encryption, the tag of 16 bytes and the ciphertext decrypt to the plaintext.
\<close>

definition aead_correct :: "'n env \<Rightarrow> bool" where
  "aead_correct E \<longleftrightarrow>
     (\<forall>key iv aad p ct tag.
        aes_gcm_encrypt E key iv TAG_LENGTH aad p = Some (ct, tag) \<longrightarrow>
        length tag = TAG_LENGTH \<and> aes_gcm_decrypt E key iv aad tag ct = Some p)"

subsection \<open>The invariant of the handshake phase\<close>

definition handshake_inv :: "state \<Rightarrow> bool" where
  "handshake_inv s \<longleftrightarrow> (\<not> isFinished s \<longrightarrow> encKey s = decKey s \<and> readCounter s = 0)"

section \<open>Properties\<close>

subsection \<open>Slices and the nonce\<close>

lemma slice_from_nat: "slice_from xs (int k) = drop k xs"
  by (cases "k \<le> length xs")
     (simp_all add: slice_from_def slice_bytes_def rel_index_def Let_def min_def)

lemma slice_bytes_nat: "slice_bytes xs (int a) (int b) = take (b - a) (drop a xs)"
  by (cases "a \<le> length xs"; cases "b \<le> length xs")
     (simp_all add: slice_bytes_def rel_index_def Let_def min_def)

lemma slice_from_32: "slice_from xs 32 = drop 32 xs"
  using slice_from_nat [of xs 32] by simp

lemma slice_bytes_0_32: "slice_bytes xs 0 32 = take 32 xs"
  using slice_bytes_nat [of xs 0 32] by simp

lemma slice_from_plus3: "slice_from xs (int k + 3) = drop (k + 3) xs"
  using slice_from_nat [of xs "k + 3"] by simp

lemma slice_bytes_3_plus3: "slice_bytes xs 3 (int k + 3) = take k (drop 3 xs)"
  using slice_bytes_nat [of xs 3 "k + 3"] by simp

lemma TAG_LENGTH_16: "TAG_LENGTH = 16"
  by (simp add: TAG_LENGTH_def drop_bit_eq_div)

lemma split_tag_long:
  assumes "16 \<le> length c"
  shows "slice_bytes c 0 (int (length c) - int TAG_LENGTH) = take (length c - 16) c"
    and "slice_from c (int (length c) - int TAG_LENGTH) = drop (length c - 16) c"
proof -
  have e: "int (length c) - int TAG_LENGTH = int (length c - 16)"
    using assms by (simp add: TAG_LENGTH_16)
  show "slice_bytes c 0 (int (length c) - int TAG_LENGTH) = take (length c - 16) c"
    unfolding e using slice_bytes_nat [of c 0 "length c - 16"] by simp
  show "slice_from c (int (length c) - int TAG_LENGTH) = drop (length c - 16) c"
    unfolding e by (rule slice_from_nat)
qed

lemma replicate_12: "replicate 12 x = [x, x, x, x, x, x, x, x, x, x, x, x]"
  by (simp add: numeral_eq_Suc)

lemma replicate_8: "replicate 8 x = [x, x, x, x, x, x, x, x]"
  by (simp add: numeral_eq_Suc)

lemma update_last4:
  "[x0, x1, x2, x3, x4, x5, x6, x7, x8, x9, xa, xb][8 := a, 8 + 1 := b, 8 + 2 := c, 8 + 3 := d]
     = [x0, x1, x2, x3, x4, x5, x6, x7, a, b, c, d]"
  by (simp add: numeral_eq_Suc)

lemma generateIV_bytes:
  "generateIV c = replicate 8 0 @
     [of_nat (c mod 2 ^ 32 div 2 ^ 24), of_nat (c mod 2 ^ 32 div 2 ^ 16),
      of_nat (c mod 2 ^ 32 div 2 ^ 8), of_nat (c mod 2 ^ 32)]"
  by (simp only: generateIV_def setUint32_def Let_def replicate_12 update_last4 replicate_8
        append_Cons append_Nil)

lemma be_sum:
  fixes w x y z a b c :: nat
  assumes "w = 256 * x + a" and "x = 256 * y + b" and "y = 256 * z + c"
  shows "16777216 * z + 65536 * c + b * 256 + a = w"
  using assms by simp

lemma div_65536: "(w :: nat) div 65536 = w div 256 div 256"
  using div_mult2_eq [of w 256 256] by simp

lemma div_16777216: "(w :: nat) div 16777216 = w div 256 div 256 div 256"
  using div_mult2_eq [of w 65536 256] div_65536 [of w] by simp

lemma be4:
  fixes w :: nat
  shows "16777216 * (w div 16777216) + 65536 * (w div 65536 mod 256)
           + w div 256 mod 256 * 256 + w mod 256 = w"
  unfolding div_65536 div_16777216
  by (rule be_sum [where x = "w div 256" and y = "w div 256 div 256"
        and a = "w mod 256" and b = "w div 256 mod 256" and c = "w div 256 div 256 mod 256"
        and z = "w div 256 div 256 div 256"]) simp_all

lemma be_val_generateIV: "be_val (drop 8 (generateIV c)) = c mod 2 ^ 32"
proof -
  have lt: "c mod 4294967296 < 4294967296" by simp
  then have "c mod 4294967296 div 16777216 < 256"
    by (simp add: div_less_iff_less_mult)
  then have top: "c mod 4294967296 div 16777216 mod 256 = c mod 4294967296 div 16777216"
    by simp
  from be4 [of "c mod 4294967296"] show ?thesis
    by (simp add: generateIV_bytes be_val_def unat_of_nat top)
qed

lemma generateIV_eq_iff: "generateIV c = generateIV c' \<longleftrightarrow> c mod 2 ^ 32 = c' mod 2 ^ 32"
proof
  assume "generateIV c = generateIV c'"
  then have "be_val (drop 8 (generateIV c)) = be_val (drop 8 (generateIV c'))" by simp
  then show "c mod 2 ^ 32 = c' mod 2 ^ 32" by (simp only: be_val_generateIV)
next
  assume "c mod 2 ^ 32 = c' mod 2 ^ 32"
  then show "generateIV c = generateIV c'" by (simp only: generateIV_bytes)
qed

subsection \<open>What each method leaves unchanged\<close>

lemma authenticate_fields:
  "salt (authenticate E s d) = salt s" "encKey (authenticate E s d) = encKey s"
  "decKey (authenticate E s d) = decKey s" "readCounter (authenticate E s d) = readCounter s"
  "writeCounter (authenticate E s d) = writeCounter s"
  "isFinished (authenticate E s d) = isFinished s" "sentIntro (authenticate E s d) = sentIntro s"
  "inBytes (authenticate E s d) = inBytes s"
  by (simp_all add: authenticate_def)

lemma authenticate_finished: "isFinished s \<Longrightarrow> authenticate E s d = s"
  by (simp add: authenticate_def)

lemma encrypt_cases:
  obtains (fail) "aes_gcm_encrypt E (encKey s) (generateIV (writeCounter s)) TAG_LENGTH (hash s) p = None"
      "encrypt E s p = (s, Inl CipherError)"
    | (ok) ct tag where
      "aes_gcm_encrypt E (encKey s) (generateIV (writeCounter s)) TAG_LENGTH (hash s) p = Some (ct, tag)"
      "encrypt E s p =
         (authenticate E (s\<lparr>writeCounter := add1 (writeCounter s)\<rparr>) (ct @ tag), Inr (ct @ tag))"
  by (cases "aes_gcm_encrypt E (encKey s) (generateIV (writeCounter s)) TAG_LENGTH (hash s) p")
     (auto simp add: encrypt_def Let_def)

lemma decrypt_cases:
  obtains (fail) "decrypt E s c = (s, Inl CipherError)"
    | (ok) r where
      "decrypt E s c =
         (authenticate E (if isFinished s then s\<lparr>readCounter := add1 (readCounter s)\<rparr>
                          else s\<lparr>writeCounter := add1 (writeCounter s)\<rparr>) c, Inr r)"
  by (cases "aes_gcm_decrypt E (decKey s) (generateIV (if isFinished s then readCounter s else writeCounter s))
        (hash s) (slice_from c (int (length c) - int TAG_LENGTH))
        (slice_bytes c 0 (int (length c) - int TAG_LENGTH))")
     (auto simp add: decrypt_def Let_def)

lemma encrypt_fields:
  "salt (fst (encrypt E s p)) = salt s" "encKey (fst (encrypt E s p)) = encKey s"
  "decKey (fst (encrypt E s p)) = decKey s" "readCounter (fst (encrypt E s p)) = readCounter s"
  "isFinished (fst (encrypt E s p)) = isFinished s" "sentIntro (fst (encrypt E s p)) = sentIntro s"
  "inBytes (fst (encrypt E s p)) = inBytes s"
  by (rule encrypt_cases [where E = E and s = s and p = p]; simp add: authenticate_fields)+

lemma decrypt_fields:
  "salt (fst (decrypt E s c)) = salt s" "encKey (fst (decrypt E s c)) = encKey s"
  "decKey (fst (decrypt E s c)) = decKey s"
  "isFinished (fst (decrypt E s c)) = isFinished s" "sentIntro (fst (decrypt E s c)) = sentIntro s"
  "inBytes (fst (decrypt E s c)) = inBytes s"
  "\<not> isFinished s \<Longrightarrow> readCounter (fst (decrypt E s c)) = readCounter s"
  "isFinished s \<Longrightarrow> writeCounter (fst (decrypt E s c)) = writeCounter s"
  by (rule decrypt_cases [where E = E and s = s and c = c]; simp add: authenticate_fields)+

lemma decrypt_inBytes_update:
  "decrypt E (s\<lparr>inBytes := x\<rparr>) c = (fst (decrypt E s c)\<lparr>inBytes := x\<rparr>, snd (decrypt E s c))"
  by (simp add: decrypt_def authenticate_def Let_def split: option.splits)

lemma localHKDF_eq:
  "localHKDF E s d = (take 32 (hkdf E d 64 (salt s)), drop 32 (hkdf E d 64 (salt s)))"
  by (simp add: localHKDF_def Let_def slice_bytes_0_32 slice_from_32)

lemma mixIntoKey_eq:
  "mixIntoKey E s d =
     s\<lparr>salt := take 32 (hkdf E d 64 (salt s)), encKey := drop 32 (hkdf E d 64 (salt s)),
       decKey := drop 32 (hkdf E d 64 (salt s)), readCounter := 0, writeCounter := 0\<rparr>"
  by (simp add: mixIntoKey_def localHKDF_eq)

lemma finishInit_eq:
  "finishInit E s =
     s\<lparr>encKey := take 32 (hkdf E [] 64 (salt s)), decKey := drop 32 (hkdf E [] 64 (salt s)),
       hash := [], readCounter := 0, writeCounter := 0, isFinished := True\<rparr>"
  by (simp add: finishInit_def localHKDF_eq)

lemma step_isFinished: "isFinished s \<Longrightarrow> isFinished (step E s x)"
  by (cases x) (simp_all add: authenticate_fields encrypt_fields decrypt_fields
      mixIntoKey_eq finishInit_eq)

lemma run_isFinished: "isFinished s \<Longrightarrow> isFinished (run E s xs)"
  by (induction xs arbitrary: s) (simp_all add: step_isFinished)

lemma step_handshake_inv: "handshake_inv s \<Longrightarrow> handshake_inv (step E s x)"
  by (cases x) (auto simp add: handshake_inv_def authenticate_fields encrypt_fields
      decrypt_fields mixIntoKey_eq finishInit_eq)

lemma run_handshake_inv: "handshake_inv s \<Longrightarrow> handshake_inv (run E s xs)"
  by (induction xs arbitrary: s) (simp_all add: step_handshake_inv)

lemma makeNoiseHandler_inv: "handshake_inv (makeNoiseHandler E pk)"
  by (simp add: handshake_inv_def makeNoiseHandler_def Let_def authenticate_def)

subsection \<open>What the composed methods keep\<close>

lemma encodeFrame_fst:
  "fst (encodeFrame E s d) \<in> {s, s\<lparr>sentIntro := True\<rparr>, fst (encrypt E s d),
      (fst (encrypt E s d))\<lparr>sentIntro := True\<rparr>}"
proof (cases "isFinished s")
  case True
  obtain s1 res where e: "encrypt E s d = (s1, res)"
    by (cases "encrypt E s d")
  show ?thesis
    using True e
    by (cases res) (simp_all add: encodeFrame_def Let_def split: sum.splits)
next
  case False
  then show ?thesis
    by (simp add: encodeFrame_def Let_def split: sum.splits)
qed

lemma encodeFrame_isFinished: "isFinished (fst (encodeFrame E s d)) = isFinished s"
  using encodeFrame_fst [of E s d] by (auto simp add: encrypt_fields)

lemma encodeFrame_handshake_inv:
  "handshake_inv s \<Longrightarrow> handshake_inv (fst (encodeFrame E s d))"
  using encodeFrame_fst [of E s d] step_handshake_inv [of s E "Encrypt d"]
  by (auto simp add: handshake_inv_def)

lemma decodeLoop_keeps:
  assumes upd: "\<And>s x. Q s \<Longrightarrow> Q (s\<lparr>inBytes := x\<rparr>)"
    and dec: "\<And>(E :: 'n env) s c. Q s \<Longrightarrow> Q (fst (decrypt E s c))"
  shows "Q s \<Longrightarrow> Q (fst (decodeLoop (E :: 'n env) s out))"
proof (induction E s out rule: decodeLoop.induct)
  case (1 E s out)
  show ?case
  proof (cases "getBytesSize s")
    case None
    then show ?thesis
      using "1.prems" by (subst decodeLoop.simps) simp
  next
    case (Some sz)
    let ?frame = "slice_bytes (inBytes s) 3 (int sz + 3)"
    let ?s1 = "s\<lparr>inBytes := slice_from (inBytes s) (int sz + 3)\<rparr>"
    have q1: "Q ?s1"
      using "1.prems" by (rule upd)
    show ?thesis
    proof (cases "sz \<noteq> 0 \<and> sz + 3 \<le> length (inBytes s)")
      case False
      then show ?thesis
        using "1.prems" Some by (subst decodeLoop.simps) auto
    next
      case go: True
      show ?thesis
      proof (cases "isFinished ?s1")
        case False
        have "Q (fst (decodeLoop E ?s1 (out @ [Raw ?frame])))"
          using "1.IH"(2) [OF Some go refl refl False q1] .
        then show ?thesis
          using Some go False by (subst decodeLoop.simps) (simp add: Let_def)
      next
        case True
        obtain s2 res where d: "decrypt E ?s1 ?frame = (s2, res)"
          by (cases "decrypt E ?s1 ?frame")
        have q2: "Q s2"
          using dec [OF q1, of E ?frame] by (simp add: d)
        show ?thesis
        proof (cases res)
          case (Inl e)
          then show ?thesis
            using Some go True d q2 by (subst decodeLoop.simps) (simp add: Let_def)
        next
          case (Inr result)
          show ?thesis
          proof (cases "decodeBinaryNode E result")
            case None
            then show ?thesis
              using Some go True d q2 Inr by (subst decodeLoop.simps) (simp add: Let_def)
          next
            case (Some node)
            have "Q (fst (decodeLoop E s2 (out @ [Node node])))"
              using "1.IH"(1) [OF \<open>getBytesSize s = Some sz\<close> go refl refl True d [symmetric] Inr Some q2] .
            then show ?thesis
              using \<open>getBytesSize s = Some sz\<close> go True d Inr Some
              by (subst decodeLoop.simps) (simp add: Let_def)
          qed
        qed
      qed
    qed
  qed
qed

lemma decodeFrame_isFinished: "isFinished (fst (decodeFrame E s d)) = isFinished s"
proof -
  have "isFinished s \<Longrightarrow> isFinished (fst (decodeFrame E s d))"
    unfolding decodeFrame_def
    by (rule decodeLoop_keeps [where Q = isFinished]) (simp_all add: decrypt_fields)
  moreover have "\<not> isFinished s \<Longrightarrow> \<not> isFinished (fst (decodeFrame E s d))"
    unfolding decodeFrame_def
    by (rule decodeLoop_keeps [where Q = "\<lambda>s. \<not> isFinished s"]) (simp_all add: decrypt_fields)
  ultimately show ?thesis
    by blast
qed

lemma decodeFrame_handshake_inv:
  "handshake_inv s \<Longrightarrow> handshake_inv (fst (decodeFrame E s d))"
  unfolding decodeFrame_def
proof (rule decodeLoop_keeps [where Q = handshake_inv])
  show "handshake_inv (s\<lparr>inBytes := x\<rparr>)" if "handshake_inv s" for s x
    using that by (simp add: handshake_inv_def)
  show "handshake_inv (fst (decrypt E s c))" if "handshake_inv s" for E :: "'a env" and s c
    using step_handshake_inv [OF that, of E "Decrypt c"] by simp
  show "handshake_inv (s\<lparr>inBytes := inBytes s @ d\<rparr>)" if "handshake_inv s"
    using that by (simp add: handshake_inv_def)
qed

lemma processHandshake_keeps:
  assumes a: "\<And>s d. Q s \<Longrightarrow> Q (authenticate E s d)"
    and m: "\<And>s d. Q s \<Longrightarrow> Q (mixIntoKey E s d)"
    and d: "\<And>s c. Q s \<Longrightarrow> Q (fst (decrypt E s c))"
    and e: "\<And>s p. Q s \<Longrightarrow> Q (fst (encrypt E s p))"
    and q: "Q s"
  shows "Q (fst (processHandshake E privateKey s hello noiseKey))"
proof -
  let ?s1 = "authenticate E s (ephemeral hello)"
  have q1: "Q ?s1"
    using q by (rule a)
  show ?thesis
  proof (cases "sharedKey E privateKey (ephemeral hello)")
    case None
    then show ?thesis
      using q1 by (simp add: processHandshake_def)
  next
    case (Some k1)
    obtain s3 r3 where d3: "decrypt E (mixIntoKey E ?s1 k1) (static hello) = (s3, r3)"
      by (cases "decrypt E (mixIntoKey E ?s1 k1) (static hello)")
    have q3: "Q s3"
      using d [OF m [OF q1], of k1 "static hello"] by (simp add: d3)
    show ?thesis
    proof (cases r3)
      case (Inl err)
      then show ?thesis
        using q3 Some d3 by (simp add: processHandshake_def)
    next
      case (Inr decStaticContent)
      show ?thesis
      proof (cases "sharedKey E privateKey decStaticContent")
        case None
        then show ?thesis
          using q3 Some d3 Inr by (simp add: processHandshake_def)
      next
        case k2: (Some k2)
        obtain s5 r5 where d5: "decrypt E (mixIntoKey E s3 k2) (payload hello) = (s5, r5)"
          by (cases "decrypt E (mixIntoKey E s3 k2) (payload hello)")
        have q5: "Q s5"
          using d [OF m [OF q3], of k2 "payload hello"] by (simp add: d5)
        obtain s6 r6 where e6: "encrypt E s5 (public_key noiseKey) = (s6, r6)"
          by (cases "encrypt E s5 (public_key noiseKey)")
        have q6: "Q s6"
          using e [OF q5, of "public_key noiseKey"] by (simp add: e6)
        have q7: "Q (mixIntoKey E s6 k3)" for k3
          using q6 by (rule m)
        show ?thesis
          using q5 q6 q7 Some d3 Inr k2 d5 e6
          by (simp add: processHandshake_def split: sum.splits option.splits)
      qed
    qed
  qed
qed

lemma call_step_isFinished: "isFinished s \<Longrightarrow> isFinished (call_step E privateKey s c)"
proof (cases c)
  case (Method x)
  then show "isFinished s \<Longrightarrow> ?thesis"
    by (simp add: step_isFinished)
next
  case (ProcessHandshake hello noiseKey)
  then show "isFinished s \<Longrightarrow> ?thesis"
    using processHandshake_keeps [where Q = isFinished and E = E and s = s]
    by (simp add: authenticate_fields mixIntoKey_eq decrypt_fields encrypt_fields)
next
  case (EncodeFrame d)
  then show "isFinished s \<Longrightarrow> ?thesis"
    by (simp add: encodeFrame_isFinished)
next
  case (DecodeFrame d)
  then show "isFinished s \<Longrightarrow> ?thesis"
    by (simp add: decodeFrame_isFinished)
qed

lemma calls_isFinished: "isFinished s \<Longrightarrow> isFinished (calls E privateKey s cs)"
  by (induction cs arbitrary: s) (simp_all add: call_step_isFinished)

lemma call_step_handshake_inv: "handshake_inv s \<Longrightarrow> handshake_inv (call_step E privateKey s c)"
proof (cases c)
  case (Method x)
  then show "handshake_inv s \<Longrightarrow> ?thesis"
    by (simp add: step_handshake_inv)
next
  case (ProcessHandshake hello noiseKey)
  assume i: "handshake_inv s"
  have "handshake_inv (fst (processHandshake E privateKey s hello noiseKey))"
  proof (rule processHandshake_keeps [where Q = handshake_inv])
    show "handshake_inv (authenticate E s d)" if "handshake_inv s" for s d
      using step_handshake_inv [OF that, of E "Authenticate d"] by simp
    show "handshake_inv (mixIntoKey E s d)" if "handshake_inv s" for s d
      using step_handshake_inv [OF that, of E "MixIntoKey d"] by simp
    show "handshake_inv (fst (decrypt E s d))" if "handshake_inv s" for s d
      using step_handshake_inv [OF that, of E "Decrypt d"] by simp
    show "handshake_inv (fst (encrypt E s d))" if "handshake_inv s" for s d
      using step_handshake_inv [OF that, of E "Encrypt d"] by simp
  qed (rule i)
  then show ?thesis
    using ProcessHandshake by simp
next
  case (EncodeFrame d)
  then show "handshake_inv s \<Longrightarrow> ?thesis"
    by (simp add: encodeFrame_handshake_inv)
next
  case (DecodeFrame d)
  then show "handshake_inv s \<Longrightarrow> ?thesis"
    by (simp add: decodeFrame_handshake_inv)
qed

lemma calls_handshake_inv: "handshake_inv s \<Longrightarrow> handshake_inv (calls E privateKey s cs)"
  by (induction cs arbitrary: s) (simp_all add: call_step_handshake_inv)

subsection \<open>Evaluating the instance\<close>

lemma replicate_numeral: "replicate (numeral k) x = x # replicate (pred_numeral k) x"
  by (simp add: numeral_eq_Suc)

lemmas eval_defs = test_env_def makeNoiseHandler_def encrypt_def decrypt_def authenticate_def
  generateIV_bytes TAG_LENGTH_16 add1_def test_mac_def slice_bytes_def slice_from_def
  rel_index_def Let_def mixIntoKey_eq finishInit_eq

lemma test_makeNoiseHandler: "makeNoiseHandler test_env [1] = test_state 162 78 78 0"
  by (simp add: eval_defs test_state_def sum_list_replicate)


subsection \<open>C1: the state before \<open>finishInit\<close>\<close>

text \<open>
  C1, as the code has it. After every sequence of calls of the handler's methods on a new
  handler, if \<open>isFinished\<close> is still false then \<open>encKey = decKey\<close> and \<open>readCounter = 0\<close>:
  before \<open>finishInit\<close> both \<open>encrypt\<close> and \<open>decrypt\<close> count in \<open>writeCounter\<close> and nothing
  advances \<open>readCounter\<close>. So \<open>readCounter = writeCounter\<close> holds only until the first
  successful \<open>encrypt\<close> or \<open>decrypt\<close> after a key mix, as \<open>counters_differ_after_encrypt\<close>
  shows.
\<close>

theorem handshake_keys_equal_readCounter_zero:
  assumes "\<not> isFinished (calls E privateKey (makeNoiseHandler E publicKey) cs)"
  shows "encKey (calls E privateKey (makeNoiseHandler E publicKey) cs)
      = decKey (calls E privateKey (makeNoiseHandler E publicKey) cs)
    \<and> readCounter (calls E privateKey (makeNoiseHandler E publicKey) cs) = 0"
  using calls_handshake_inv [where s = "makeNoiseHandler E publicKey" and E = E
      and privateKey = privateKey and cs = cs, OF makeNoiseHandler_inv] assms
  by (simp add: handshake_inv_def)

theorem handshake_keys_equal_readCounter_zero_witness:
  "\<not> isFinished (calls test_env [2] (makeNoiseHandler test_env [1])
        [Method (Encrypt [5]), EncodeFrame [9], Method (MixIntoKey [7]),
         Method (Decrypt [1, 2, 3]), DecodeFrame [0, 0, 1, 5]])
   \<and> encKey (calls test_env [2] (makeNoiseHandler test_env [1])
        [Method (Encrypt [5]), EncodeFrame [9], Method (MixIntoKey [7]),
         Method (Decrypt [1, 2, 3]), DecodeFrame [0, 0, 1, 5]])
     = decKey (calls test_env [2] (makeNoiseHandler test_env [1])
        [Method (Encrypt [5]), EncodeFrame [9], Method (MixIntoKey [7]),
         Method (Decrypt [1, 2, 3]), DecodeFrame [0, 0, 1, 5]])
   \<and> readCounter (calls test_env [2] (makeNoiseHandler test_env [1])
        [Method (Encrypt [5]), EncodeFrame [9], Method (MixIntoKey [7]),
         Method (Decrypt [1, 2, 3]), DecodeFrame [0, 0, 1, 5]]) = 0"
proof -
  have h: "\<not> isFinished (calls test_env [2] (makeNoiseHandler test_env [1])
        [Method (Encrypt [5]), EncodeFrame [9], Method (MixIntoKey [7]),
         Method (Decrypt [1, 2, 3]), DecodeFrame [0, 0, 1, 5]])"
    by (simp add: authenticate_fields encrypt_fields decrypt_fields mixIntoKey_eq
        encodeFrame_isFinished decodeFrame_isFinished makeNoiseHandler_def Let_def)
  show ?thesis
    using h handshake_keys_equal_readCounter_zero [OF h] by blast
qed

theorem counters_differ_after_encrypt:
  "\<not> isFinished (run test_env (makeNoiseHandler test_env [1]) [Encrypt [5]])
   \<and> readCounter (run test_env (makeNoiseHandler test_env [1]) [Encrypt [5]]) = 0
   \<and> writeCounter (run test_env (makeNoiseHandler test_env [1]) [Encrypt [5]]) = 1"
  by (simp add: eval_defs)

subsection \<open>Counters and keys along a trace\<close>

lemma encrypt_writeCounter:
  "snd (encrypt E s p) = Inr r \<Longrightarrow> writeCounter (fst (encrypt E s p)) = add1 (writeCounter s)"
  "snd (encrypt E s p) = Inl e \<Longrightarrow> fst (encrypt E s p) = s"
  by (rule encrypt_cases [where E = E and s = s and p = p]; simp add: authenticate_fields)+

lemma decrypt_counters:
  "snd (decrypt E s c) = Inr r \<Longrightarrow> \<not> isFinished s \<Longrightarrow>
     writeCounter (fst (decrypt E s c)) = add1 (writeCounter s)"
  "snd (decrypt E s c) = Inr r \<Longrightarrow> isFinished s \<Longrightarrow>
     readCounter (fst (decrypt E s c)) = add1 (readCounter s)"
  "snd (decrypt E s c) = Inl e \<Longrightarrow> fst (decrypt E s c) = s"
  by (rule decrypt_cases [where E = E and s = s and c = c]; simp add: authenticate_fields)+













subsection \<open>The composed methods as traces of the five\<close>

lemma cipher_state_update:
  "cipher_state (s\<lparr>inBytes := x\<rparr>) = cipher_state s"
  "cipher_state (s\<lparr>sentIntro := b\<rparr>) = cipher_state s"
  by (simp_all add: cipher_state_def)

lemma step_cipher_state: "step E (cipher_state s) x = cipher_state (step E s x)"
  by (cases x)
     (simp_all add: cipher_state_def authenticate_def encrypt_def decrypt_def mixIntoKey_eq
        finishInit_eq Let_def split: option.splits prod.splits)

lemma run_cipher_state: "run E (cipher_state s) xs = cipher_state (run E s xs)"
  by (induction xs arbitrary: s) (simp_all add: step_cipher_state)

lemma run_cong:
  assumes "cipher_state a = cipher_state b"
  shows "cipher_state (run E a xs) = cipher_state (run E b xs)"
  using assms run_cipher_state [of E a xs] run_cipher_state [of E b xs] by simp


lemma nonce_use_cipher_state: "nonce_use E (cipher_state s) x = nonce_use E s x"
  by (cases x)
     (simp_all add: cipher_state_def encrypt_def decrypt_def Let_def
        split: option.splits prod.splits)

lemma uses_cipher_state: "uses E (cipher_state s) xs = uses E s xs"
  by (induction xs arbitrary: s) (simp_all add: nonce_use_cipher_state step_cipher_state)

lemma uses_append: "uses E s (xs @ ys) = uses E s xs @ uses E (run E s xs) ys"
  by (induction xs arbitrary: s) simp_all

lemma processHandshake_run:
  "fst (processHandshake E privateKey s hello noiseKey)
     = run E s (processHandshake_ops E privateKey s hello noiseKey)"
  by (simp add: processHandshake_def processHandshake_ops_def Let_def
      split: option.splits sum.splits prod.splits)

lemma encodeFrame_run:
  "cipher_state (fst (encodeFrame E s d))
     = cipher_state (run E s (if isFinished s then [Encrypt d] else []))"
proof (cases "isFinished s")
  case True
  obtain s1 res where e: "encrypt E s d = (s1, res)"
    by (cases "encrypt E s d")
  show ?thesis
    using True e
    by (cases res) (simp_all add: encodeFrame_def Let_def cipher_state_update split: sum.splits)
next
  case False
  then show ?thesis
    by (simp add: encodeFrame_def Let_def cipher_state_update split: sum.splits)
qed

lemma decodeLoop_run:
  "cipher_state (fst (decodeLoop E s out)) = cipher_state (run E s (decodeLoop_ops E s))"
proof (induction E s out rule: decodeLoop.induct)
  case (1 E s out)
  show ?case
  proof (cases "getBytesSize s")
    case None
    then show ?thesis
      by (subst decodeLoop.simps, subst decodeLoop_ops.simps) simp
  next
    case (Some sz)
    let ?frame = "slice_bytes (inBytes s) 3 (int sz + 3)"
    let ?s1 = "s\<lparr>inBytes := slice_from (inBytes s) (int sz + 3)\<rparr>"
    show ?thesis
    proof (cases "sz \<noteq> 0 \<and> sz + 3 \<le> length (inBytes s)")
      case False
      then show ?thesis
        using Some by (subst decodeLoop.simps, subst decodeLoop_ops.simps) auto
    next
      case go: True
      show ?thesis
      proof (cases "isFinished ?s1")
        case False
        have "cipher_state (fst (decodeLoop E ?s1 (out @ [Raw ?frame])))
            = cipher_state (run E ?s1 (decodeLoop_ops E ?s1))"
          using "1.IH"(2) [OF Some go refl refl False] .
        also have "\<dots> = cipher_state (run E s (decodeLoop_ops E ?s1))"
          by (rule run_cong) (simp add: cipher_state_update)
        finally show ?thesis
          using Some go False
          by (subst decodeLoop.simps, subst decodeLoop_ops.simps) (simp add: Let_def)
      next
        case True
        obtain s2 res where d: "decrypt E ?s1 ?frame = (s2, res)"
          by (cases "decrypt E ?s1 ?frame")
        have s2: "cipher_state s2 = cipher_state (fst (decrypt E s ?frame))"
          using d decrypt_inBytes_update [where E = E and s = s
              and x = "slice_from (inBytes s) (int sz + 3)" and c = ?frame]
          by (auto simp add: cipher_state_update)
        show ?thesis
        proof (cases res)
          case (Inl e)
          then show ?thesis
            using Some go True d s2
            by (subst decodeLoop.simps, subst decodeLoop_ops.simps) (simp add: Let_def)
        next
          case (Inr result)
          show ?thesis
          proof (cases "decodeBinaryNode E result")
            case None
            then show ?thesis
              using Some go True d s2 Inr
              by (subst decodeLoop.simps, subst decodeLoop_ops.simps) (simp add: Let_def)
          next
            case (Some node)
            have "cipher_state (fst (decodeLoop E s2 (out @ [Node node])))
                = cipher_state (run E s2 (decodeLoop_ops E s2))"
              using "1.IH"(1) [OF \<open>getBytesSize s = Some sz\<close> go refl refl True d [symmetric] Inr Some] .
            also have "\<dots> = cipher_state (run E (fst (decrypt E s ?frame)) (decodeLoop_ops E s2))"
              by (rule run_cong) (rule s2)
            finally show ?thesis
              using \<open>getBytesSize s = Some sz\<close> go True d Inr Some
              by (subst decodeLoop.simps, subst decodeLoop_ops.simps) (simp add: Let_def)
          qed
        qed
      qed
    qed
  qed
qed

lemma call_step_run:
  "cipher_state (call_step E privateKey s c) = cipher_state (run E s (call_ops E privateKey s c))"
proof (cases c)
  case (Method x)
  then show ?thesis by simp
next
  case (ProcessHandshake hello noiseKey)
  then show ?thesis by (simp add: processHandshake_run)
next
  case (EncodeFrame d)
  then show ?thesis
    using encodeFrame_run [of E s d] by simp
next
  case (DecodeFrame d)
  have "cipher_state (fst (decodeFrame E s d))
      = cipher_state (run E (s\<lparr>inBytes := inBytes s @ d\<rparr>)
          (decodeLoop_ops E (s\<lparr>inBytes := inBytes s @ d\<rparr>)))"
    unfolding decodeFrame_def by (rule decodeLoop_run)
  also have "\<dots> = cipher_state (run E s (decodeLoop_ops E (s\<lparr>inBytes := inBytes s @ d\<rparr>)))"
    by (rule run_cong) (simp add: cipher_state_update)
  finally show ?thesis
    using DecodeFrame by simp
qed


lemma uses_ops_of:
  "uses E s (ops_of E privateKey s (c # cs))
     = uses E s (call_ops E privateKey s c)
       @ uses E (call_step E privateKey s c) (ops_of E privateKey (call_step E privateKey s c) cs)"
proof -
  have "uses E (run E s (call_ops E privateKey s c)) ys = uses E (call_step E privateKey s c) ys"
    for ys
    using uses_cipher_state [of E "run E s (call_ops E privateKey s c)" ys]
      uses_cipher_state [of E "call_step E privateKey s c" ys]
    by (simp add: call_step_run)
  then show ?thesis
    by (simp add: uses_append)
qed

lemma ops_of_methods: "ops_of E privateKey s (map Method xs) = xs"
  by (induction xs arbitrary: s) simp_all



subsection \<open>The frame that \<open>encodeFrame\<close> writes\<close>

lemma and_65535: "65535 AND (x :: int) = x mod 65536"
proof -
  have "x AND mask 16 = take_bit 16 x"
    by (simp only: take_bit_eq_mask)
  then show ?thesis
    by (simp add: mask_eq_exp_minus_1 take_bit_eq_mod and.commute)
qed

lemma ToInt32_small: "n < 2 ^ 31 \<Longrightarrow> ToInt32 n = int n"
  by (simp add: ToInt32_def Let_def)

lemma drop_bit_16_int: "drop_bit 16 (x :: int) = x div 65536"
  by (simp add: drop_bit_eq_div)

lemma header_frame:
  "(hdr @ replicate (3 + n) (0 :: byte))[length hdr := a, length hdr + 1 := b, length hdr + 2 := c]
     = hdr @ [a, b, c] @ replicate n 0"
  by (simp add: list_update_append numeral_3_eq_3)

lemma buf_set_payload:
  "length wire = n \<Longrightarrow>
     buf_set (hdr @ [a, b, c] @ replicate n 0) wire (length hdr + 3) = hdr @ [a, b, c] @ wire"
  by (simp add: buf_set_def)

lemma mod_65536_bounds: "\<not> (x :: int) mod 65536 < 0" "\<not> 65535 < (x :: int) mod 65536"
proof -
  have "0 \<le> x mod 65536" "x mod 65536 < 65536"
    by simp_all
  then show "\<not> x mod 65536 < 0" "\<not> 65535 < x mod 65536"
    by linarith+
qed

lemma replicate_3_plus: "replicate (3 + n) x = x # x # x # replicate n x"
  by (simp add: numeral_3_eq_3)

lemma encodeFrame_frame:
  assumes w: "(if isFinished s then encrypt E s d0 else (s, Inr d0)) = (s1, Inr wire)"
    and hi: "0 \<le> drop_bit 16 (ToInt32 (length wire))" "drop_bit 16 (ToInt32 (length wire)) \<le> 255"
  shows "encodeFrame E s d0 =
     (if sentIntro s1 then s1 else s1\<lparr>sentIntro := True\<rparr>,
      Inr ((if sentIntro s1 then [] else NOISE_WA_HEADER E)
           @ [of_int (drop_bit 16 (ToInt32 (length wire))),
              of_int ((65535 AND ToInt32 (length wire)) div 256),
              of_int (65535 AND ToInt32 (length wire))]
           @ wire))"
proof (cases "sentIntro s1")
  case True
  show ?thesis
    unfolding encodeFrame_def w
    using hi True
    by (simp add: Let_def writeUInt8_def writeUInt16BE_def buf_set_def and_65535 mod_65536_bounds
        replicate_3_plus add.commute [of _ 3])
next
  case False
  have fr: "buf_set (replicate (length (NOISE_WA_HEADER E) + 3 + length wire) 0) (NOISE_WA_HEADER E) 0
      = NOISE_WA_HEADER E @ replicate (3 + length wire) 0"
    by (simp add: buf_set_def add.assoc)
  show ?thesis
    unfolding encodeFrame_def w
    using hi False
    by (simp add: Let_def fr writeUInt8_def writeUInt16BE_def buf_set_def and_65535 mod_65536_bounds
        replicate_3_plus list_update_append)
qed

lemma encodeFrame_range_error:
  assumes w: "(if isFinished s then encrypt E s d0 else (s, Inr d0)) = (s1, Inr wire)"
    and hi: "drop_bit 16 (ToInt32 (length wire)) < 0 \<or> 255 < drop_bit 16 (ToInt32 (length wire))"
  shows "encodeFrame E s d0 = (if sentIntro s1 then s1 else s1\<lparr>sentIntro := True\<rparr>, Inl RangeError)"
  unfolding encodeFrame_def w using hi
  by (auto simp add: Let_def writeUInt8_def)

lemma high_byte_small:
  assumes "n < 2 ^ 24"
  shows "drop_bit 16 (ToInt32 n) = int (n div 65536)" and "n div 65536 < 256"
proof -
  have "n < 2 ^ 31" using assms by simp
  then show "drop_bit 16 (ToInt32 n) = int (n div 65536)"
    by (simp add: ToInt32_small drop_bit_16_int zdiv_int)
  show "n div 65536 < 256"
    using assms by (simp add: div_less_iff_less_mult)
qed

lemma high_byte_big:
  assumes "2 ^ 24 \<le> n" and "n < 2 ^ 32"
  shows "drop_bit 16 (ToInt32 n) < 0 \<or> 255 < drop_bit 16 (ToInt32 n)"
proof (cases "n < 2 ^ 31")
  case True
  then have "ToInt32 n = int n"
    by (rule ToInt32_small)
  moreover have "255 < int n div 65536"
    using assms(1) by simp
  ultimately show ?thesis
    by (simp add: drop_bit_16_int)
next
  case False
  then have "ToInt32 n = int n - 4294967296"
    using assms(2) by (simp add: ToInt32_def Let_def)
  moreover have "(int n - 4294967296) div 65536 < 0"
    using assms(2) by simp
  ultimately show ?thesis
    by (simp add: drop_bit_16_int)
qed

lemma low_bytes: "n < 2 ^ 31 \<Longrightarrow> 65535 AND ToInt32 n = int (n mod 65536)"
  by (simp add: and_65535 ToInt32_small zmod_int)

lemma prefix_value:
  assumes "n < 2 ^ 24"
  shows "be_val [of_nat (n div 65536), of_nat (n mod 65536 div 256), of_nat (n mod 65536)] = n"
proof -
  have q: "n div 65536 < 256"
    using assms by (simp add: div_less_iff_less_mult)
  have r: "n mod 65536 div 256 < 256"
    by (simp add: div_less_iff_less_mult)
  have m: "n mod 65536 mod 256 = n mod 256"
    by (simp add: mod_mod_cancel)
  have "n = 65536 * (n div 65536) + n mod 65536"
    by simp
  also have "n mod 65536 = 256 * (n mod 65536 div 256) + n mod 65536 mod 256"
    by simp
  finally have "n = 65536 * (n div 65536) + (256 * (n mod 65536 div 256) + n mod 256)"
    by (simp only: m)
  then show ?thesis
    using q r by (simp add: be_val_def unat_of_nat m)
qed

lemma byte_of_int_div: "(word_of_int (int a div 256) :: byte) = word_of_nat (a div 256)"
proof -
  have "int a div 256 = int (a div 256)"
    by (simp add: zdiv_int)
  then show ?thesis
    by (simp only: of_int_of_nat_eq)
qed

subsection \<open>Reassembling frames\<close>

lemma or_16:
  fixes x y :: nat
  assumes "y < 65536"
  shows "push_bit 16 x OR y = x * 65536 + y"
proof -
  have y: "take_bit 16 y = y"
    using assms by (simp add: take_bit_eq_mod)
  have "push_bit 16 x AND take_bit 16 y = 0"
    by (simp add: bit_eq_iff bit_simps)
  then have "push_bit 16 x + take_bit 16 y = push_bit 16 x OR take_bit 16 y"
    by (rule disjunctive_add_eq_or)
  then show ?thesis
    by (simp add: y push_bit_eq_mult)
qed

lemma getBytesSize_short: "length (inBytes s) < 3 \<Longrightarrow> getBytesSize s = None"
  by (simp add: getBytesSize_def)

lemma getBytesSize_prefix:
  "inBytes s = a # b # c # rest \<Longrightarrow> getBytesSize s = Some (be_val [a, b, c])"
proof -
  assume i: "inBytes s = a # b # c # rest"
  have "unat b * 256 + unat c < 65536"
    using unsigned_less [of b, where ?'a = nat] unsigned_less [of c, where ?'a = nat] by simp
  from or_16 [OF this] show ?thesis
    by (simp add: getBytesSize_def i readUInt8_def readUInt16BE_def be_val_def)
qed

lemma decodeLoop_wait:
  assumes "length (inBytes s) < 3
    \<or> (\<exists>a b c rest. inBytes s = a # b # c # rest
          \<and> (be_val [a, b, c] = 0 \<or> length rest < be_val [a, b, c]))"
  shows "decodeLoop E s out = (s, out, None)"
  using assms
proof
  assume "length (inBytes s) < 3"
  then show ?thesis
    by (subst decodeLoop.simps) (simp add: getBytesSize_short)
next
  assume "\<exists>a b c rest. inBytes s = a # b # c # rest
    \<and> (be_val [a, b, c] = 0 \<or> length rest < be_val [a, b, c])"
  then obtain a b c rest where i: "inBytes s = a # b # c # rest"
    and n: "be_val [a, b, c] = 0 \<or> length rest < be_val [a, b, c]"
    by blast
  have l: "length (inBytes s) = length rest + 3"
    by (simp add: i)
  show ?thesis
    by (subst decodeLoop.simps) (use n in \<open>auto simp add: getBytesSize_prefix [OF i] l\<close>)
qed

lemma decodeLoop_frame:
  assumes i: "inBytes s = a # b # c # body @ rest"
    and n: "be_val [a, b, c] = length body" "body \<noteq> []"
  shows "decodeLoop E s out =
     (if isFinished s then
        (case decrypt E (s\<lparr>inBytes := rest\<rparr>) body of
           (s2, Inl e) \<Rightarrow> (s2, out, Some e)
         | (s2, Inr result) \<Rightarrow>
             (case decodeBinaryNode E result of
                None \<Rightarrow> (s2, out, Some NodeError)
              | Some node \<Rightarrow> decodeLoop E s2 (out @ [Node node])))
      else decodeLoop E (s\<lparr>inBytes := rest\<rparr>) (out @ [Raw body]))"
proof -
  have g: "getBytesSize s = Some (length body)"
    using getBytesSize_prefix [OF i] n by simp
  have f: "slice_bytes (inBytes s) 3 (int (length body) + 3) = body"
    by (simp add: slice_bytes_3_plus3 i)
  have r: "slice_from (inBytes s) (int (length body) + 3) = rest"
    by (simp add: slice_from_plus3 i numeral_3_eq_3)
  have l: "length body + 3 \<le> length (inBytes s)"
    by (simp add: i)
  show ?thesis
    by (subst decodeLoop.simps) (use n(2) l in \<open>simp add: g f r Let_def\<close>)
qed

lemma decodeFrame_nothing:
  assumes "inBytes r = []"
  shows "decodeFrame E r [] = (r, [], None)"
proof -
  have e: "r\<lparr>inBytes := inBytes r @ []\<rparr> = r"
    by (cases r) simp
  show ?thesis
    unfolding decodeFrame_def e using decodeLoop_wait [of r E "[]"] assms by simp
qed

lemma feed_nothing: "inBytes r = [] \<Longrightarrow> concat cs = [] \<Longrightarrow> feed E r cs = (r, [], None)"
  by (induction cs) (simp_all add: decodeFrame_nothing)

lemma prefix_of_frame:
  assumes "B @ rest' = a # b # c # body" and "3 \<le> length B"
  shows "B = a # b # c # take (length B - 3) body"
proof -
  have "B = take (length B) (B @ rest')"
    by simp
  also have "\<dots> = take (length B) (a # b # c # body)"
    by (simp only: assms(1))
  also have "\<dots> = a # b # c # take (length B - 3) body"
  proof -
    obtain m where m: "length B = Suc (Suc (Suc m))"
      using assms(2) by (metis Suc_le_D Suc_le_mono numeral_3_eq_3)
    show ?thesis
      by (simp add: m)
  qed
  finally show ?thesis .
qed

lemma decodeFrame_incomplete:
  assumes F: "(inBytes r @ c) @ rest' = a # b # c1 # body"
    and n: "be_val [a, b, c1] = length body"
    and lt: "length (inBytes r @ c) < length (a # b # c1 # body)"
  shows "decodeFrame E r c = (r\<lparr>inBytes := inBytes r @ c\<rparr>, [], None)"
proof -
  let ?B = "inBytes r @ c"
  have "length ?B < 3
    \<or> (\<exists>a' b' c' rest. ?B = a' # b' # c' # rest
          \<and> (be_val [a', b', c'] = 0 \<or> length rest < be_val [a', b', c']))"
  proof (cases "length ?B < 3")
    case True
    then show ?thesis by blast
  next
    case False
    then have "?B = a # b # c1 # take (length ?B - 3) body"
      by (intro prefix_of_frame [OF F]) simp
    moreover have "length (take (length ?B - 3) body) < be_val [a, b, c1]"
      using lt False by (simp add: n)
    ultimately show ?thesis by blast
  qed
  then show ?thesis
    using decodeLoop_wait [of "r\<lparr>inBytes := ?B\<rparr>" E "[]"] by (simp add: decodeFrame_def)
qed

lemma feed_one_frame:
  assumes n: "be_val [a, b, c1] = length body"
    and loop: "decodeLoop E (r\<lparr>inBytes := a # b # c1 # body\<rparr>) [] = (r2, fs, res)"
    and emp: "inBytes r2 = []"
    and cs: "inBytes r @ concat cs = a # b # c1 # body"
    and lt: "length (inBytes r) < length (a # b # c1 # body)"
  shows "feed E r cs = (r2, fs, res)"
  using loop cs lt
proof (induction cs arbitrary: r)
  case Nil
  then show ?case by simp
next
  case (Cons c cs)
  let ?B = "inBytes r @ c"
  have F: "?B @ concat cs = a # b # c1 # body"
    using Cons.prems(2) by simp
  then have le: "length ?B \<le> length (a # b # c1 # body)"
    by (metis length_append le_add1)
  show ?case
  proof (cases "length ?B < length (a # b # c1 # body)")
    case True
    have d: "decodeFrame E r c = (r\<lparr>inBytes := ?B\<rparr>, [], None)"
      by (rule decodeFrame_incomplete [OF F n True])
    have "feed E (r\<lparr>inBytes := ?B\<rparr>) cs = (r2, fs, res)"
      using Cons.prems(1) F True by (intro Cons.IH) simp_all
    then show ?thesis
      by (simp add: d)
  next
    case False
    then have len: "length ?B = length (a # b # c1 # body)"
      using le by simp
    then have B: "?B = a # b # c1 # body" and e: "concat cs = []"
      using F by (metis append_eq_append_conv append_Nil2 length_append add_diff_cancel_left' length_0_conv)+
    have d: "decodeFrame E r c = (r2, fs, res)"
      using Cons.prems(1) by (simp add: decodeFrame_def B)
    show ?thesis
      by (cases res) (simp_all add: d feed_nothing [OF emp e])
  qed
qed

lemma encodeFrame_sent:
  assumes enc: "encodeFrame E s P = (s', Inr frame)"
    and intro: "sentIntro s"
    and len: "length frame < 2 ^ 24 + 3"
  shows "\<exists>wire a b c. (if isFinished s then encrypt E s P else (s, Inr P)) = (s', Inr wire)
    \<and> frame = a # b # c # wire \<and> be_val [a, b, c] = length wire"
proof -
  obtain s1 res where w: "(if isFinished s then encrypt E s P else (s, Inr P)) = (s1, res)"
    by (cases "if isFinished s then encrypt E s P else (s, Inr P)") blast
  have i1: "sentIntro s1"
    using w intro encrypt_fields(6) [of E s P] by (auto split: if_splits)
  show ?thesis
  proof (cases res)
    case (Inl e)
    then show ?thesis
      using enc w by (simp add: encodeFrame_def)
  next
    case (Inr wire)
    let ?hi = "drop_bit 16 (ToInt32 (length wire))"
    have w': "(if isFinished s then encrypt E s P else (s, Inr P)) = (s1, Inr wire)"
      using w Inr by simp
    have hi: "0 \<le> ?hi" "?hi \<le> 255"
      using encodeFrame_range_error [OF w'] enc by (auto simp add: not_less [symmetric])
    have fr: "encodeFrame E s P = (s1, Inr (
        [of_int ?hi, of_int ((65535 AND ToInt32 (length wire)) div 256),
         of_int (65535 AND ToInt32 (length wire))] @ wire))"
      using encodeFrame_frame [OF w' hi] i1 by simp
    then have s': "s' = s1" and frame: "frame =
        [of_int ?hi, of_int ((65535 AND ToInt32 (length wire)) div 256),
         of_int (65535 AND ToInt32 (length wire))] @ wire"
      using enc by simp_all
    have lt: "length wire < 2 ^ 24"
      using len by (simp add: frame)
    then have lt31: "length wire < 2 ^ 31"
      by simp
    have "be_val [of_int ?hi, of_int ((65535 AND ToInt32 (length wire)) div 256),
         of_int (65535 AND ToInt32 (length wire))] = length wire"
      using prefix_value [OF lt]
      by (simp add: high_byte_small(1) [OF lt] low_bytes [OF lt31] byte_of_int_div)
    then show ?thesis
      using w' s' frame by auto
  qed
qed

lemma decodeLoop_empty: "inBytes r = [] \<Longrightarrow> decodeLoop E r out = (r, out, None)"
  by (rule decodeLoop_wait) simp

lemma decodeLoop_raw_frame:
  assumes "\<not> isFinished r" and "inBytes r = a # b # c # body @ rest"
    and "be_val [a, b, c] = length body" and "body \<noteq> []"
  shows "decodeLoop E r out = decodeLoop E (r\<lparr>inBytes := rest\<rparr>) (out @ [Raw body])"
  using decodeLoop_frame [where E = E and out = out, OF assms(2-4)] assms(1) by simp

lemma decodeLoop_node_frame:
  assumes "isFinished r" and "inBytes r = a # b # c # body @ rest"
    and "be_val [a, b, c] = length body" and "body \<noteq> []"
    and "decrypt E (r\<lparr>inBytes := []\<rparr>) body = (r1, Inr result)"
    and "decodeBinaryNode E result = Some node"
  shows "decodeLoop E r out = decodeLoop E (r1\<lparr>inBytes := rest\<rparr>) (out @ [Node node])"
proof -
  have "decrypt E (r\<lparr>inBytes := rest\<rparr>) body = (r1\<lparr>inBytes := rest\<rparr>, Inr result)"
    using assms(5) decrypt_inBytes_update [where E = E and s = r and x = "[]" and c = body]
      decrypt_inBytes_update [where E = E and s = r and x = rest and c = body]
    by (cases "decrypt E r body") auto
  then show ?thesis
    using decodeLoop_frame [where E = E and out = out, OF assms(2-4)] assms(1,6) by simp
qed

lemma encodeFrame_state:
  assumes "encodeFrame E s P = (s', Inr frame)" and "sentIntro s" and "length frame < 2 ^ 24 + 3"
  shows "sentIntro s'" and "isFinished s' = isFinished s"
proof -
  obtain wire where w: "(if isFinished s then encrypt E s P else (s, Inr P)) = (s', Inr wire)"
    using encodeFrame_sent [OF assms] by blast
  show "sentIntro s'"
    using w assms(2) encrypt_fields(6) [of E s P] by (auto split: if_splits)
  show "isFinished s' = isFinished s"
    using w encrypt_fields(5) [of E s P] by (auto split: if_splits)
qed

lemma decodeFrame_two_raw:
  assumes n1: "be_val [a, b, c] = length w1" and n2: "be_val [a', b', c'] = length w2"
    and ne1: "w1 \<noteq> []" and ne2: "w2 \<noteq> []"
    and acc: "inBytes r = []" and nf: "\<not> isFinished r"
  shows "decodeFrame E r ((a # b # c # w1) @ (a' # b' # c' # w2)) =
           (r, [Raw w1, Raw w2], None)"
proof -
  let ?f2 = "a' # b' # c' # w2"
  let ?r0 = "r\<lparr>inBytes := inBytes r @ (a # b # c # w1) @ ?f2\<rparr>"
  have i1: "inBytes ?r0 = a # b # c # w1 @ ?f2"
    by (simp add: acc)
  have nf0: "\<not> isFinished ?r0"
    using nf by simp
  have st1: "decodeLoop E ?r0 [] = decodeLoop E (?r0\<lparr>inBytes := ?f2\<rparr>) ([] @ [Raw w1])"
    by (rule decodeLoop_raw_frame [OF nf0 i1 n1 ne1])
  have i2: "inBytes (?r0\<lparr>inBytes := ?f2\<rparr>) = a' # b' # c' # w2 @ []"
    by simp
  have st2: "decodeLoop E (?r0\<lparr>inBytes := ?f2\<rparr>) ([] @ [Raw w1])
      = decodeLoop E (?r0\<lparr>inBytes := ?f2, inBytes := []\<rparr>) (([] @ [Raw w1]) @ [Raw w2])"
    by (rule decodeLoop_raw_frame [OF _ i2 n2 ne2]) (use nf in simp)
  have r0: "?r0\<lparr>inBytes := ?f2, inBytes := []\<rparr> = r"
    using acc by (cases r) simp
  have st3: "decodeLoop E r (([] @ [Raw w1]) @ [Raw w2]) = (r, [Raw w1, Raw w2], None)"
    using decodeLoop_empty [OF acc, of E "[Raw w1, Raw w2]"] by simp
  show ?thesis
    unfolding decodeFrame_def st1 st2 r0 st3 by (rule refl)
qed

lemma decodeFrame_two_nodes:
  assumes n1: "be_val [a, b, c] = length w1" and n2: "be_val [a', b', c'] = length w2"
    and ne1: "w1 \<noteq> []" and ne2: "w2 \<noteq> []"
    and acc: "inBytes r = []" and fr: "isFinished r"
    and d1: "decrypt E r w1 = (r1, Inr P1)" and nd1: "decodeBinaryNode E P1 = Some node1"
    and d2: "decrypt E r1 w2 = (r2, Inr P2)" and nd2: "decodeBinaryNode E P2 = Some node2"
  shows "decodeFrame E r ((a # b # c # w1) @ (a' # b' # c' # w2)) =
           (r2, [Node node1, Node node2], None)"
proof -
  let ?f2 = "a' # b' # c' # w2"
  let ?r0 = "r\<lparr>inBytes := inBytes r @ (a # b # c # w1) @ ?f2\<rparr>"
  have i1: "inBytes ?r0 = a # b # c # w1 @ ?f2"
    by (simp add: acc)
  have fr0: "isFinished ?r0"
    using fr by simp
  have r0: "?r0\<lparr>inBytes := []\<rparr> = r"
    using acc by (cases r) simp
  have d1': "decrypt E (?r0\<lparr>inBytes := []\<rparr>) w1 = (r1, Inr P1)"
    unfolding r0 by (rule d1)
  have st1: "decodeLoop E ?r0 [] = decodeLoop E (r1\<lparr>inBytes := ?f2\<rparr>) ([] @ [Node node1])"
    by (rule decodeLoop_node_frame [OF fr0 i1 n1 ne1 d1' nd1])
  have e1: "inBytes r1 = []" and fr1: "isFinished r1"
    using decrypt_fields(4,6) [of E r w1] acc fr by (simp_all add: d1)
  have i2: "inBytes (r1\<lparr>inBytes := ?f2\<rparr>) = a' # b' # c' # w2 @ []"
    by simp
  have fr1': "isFinished (r1\<lparr>inBytes := ?f2\<rparr>)"
    using fr1 by simp
  have r1': "r1\<lparr>inBytes := ?f2, inBytes := []\<rparr> = r1"
    using e1 by (cases r1) simp
  have d2': "decrypt E (r1\<lparr>inBytes := ?f2, inBytes := []\<rparr>) w2 = (r2, Inr P2)"
    unfolding r1' by (rule d2)
  have st2: "decodeLoop E (r1\<lparr>inBytes := ?f2\<rparr>) ([] @ [Node node1])
      = decodeLoop E (r2\<lparr>inBytes := []\<rparr>) (([] @ [Node node1]) @ [Node node2])"
    by (rule decodeLoop_node_frame [OF fr1' i2 n2 ne2 d2' nd2])
  have e2: "inBytes r2 = []"
    using decrypt_fields(6) [of E r1 w2] e1 by (simp add: d2)
  then have r2': "r2\<lparr>inBytes := []\<rparr> = r2"
    by (cases r2) simp
  have st3: "decodeLoop E r2 (([] @ [Node node1]) @ [Node node2]) = (r2, [Node node1, Node node2], None)"
    using decodeLoop_empty [OF e2, of E "[Node node1, Node node2]"] by simp
  show ?thesis
    unfolding decodeFrame_def st1 st2 r2' st3 by (rule refl)
qed

lemma encodeFrame_small:
  assumes w: "(if isFinished s then encrypt E s d0 else (s, Inr d0)) = (s1, Inr wire)"
    and lt: "length wire < 2 ^ 24"
  shows "encodeFrame E s d0 =
     (if sentIntro s1 then s1 else s1\<lparr>sentIntro := True\<rparr>,
      Inr ((if sentIntro s1 then [] else NOISE_WA_HEADER E)
           @ [of_nat (length wire div 65536), of_nat (length wire mod 65536 div 256),
              of_nat (length wire mod 65536)]
           @ wire))"
proof -
  have lt31: "length wire < 2 ^ 31"
    using lt by simp
  have hi: "drop_bit 16 (ToInt32 (length wire)) = int (length wire div 65536)"
    by (rule high_byte_small(1) [OF lt])
  have "0 \<le> drop_bit 16 (ToInt32 (length wire))" "drop_bit 16 (ToInt32 (length wire)) \<le> 255"
    using high_byte_small(2) [OF lt] by (simp_all add: hi)
  from encodeFrame_frame [OF w this] show ?thesis
    by (simp add: hi low_bytes [OF lt31] byte_of_int_div)
qed

lemma test_first_frame:
  "encodeFrame test_env (makeNoiseHandler test_env [1]) [9]
     = (test_state 162 78 78 0\<lparr>sentIntro := True\<rparr>, Inr [87, 65, 6, 2, 0, 0, 1, 9])"
proof -
  let ?s = "test_state 162 78 78 0"
  have w: "(if isFinished ?s then encrypt test_env ?s [9] else (?s, Inr [9])) = (?s, Inr [9])"
    by (simp add: test_state_def)
  have hd: "NOISE_WA_HEADER test_env = [87, 65, 6, 2]"
    by (simp add: test_env_def)
  show ?thesis
    using encodeFrame_small [OF w] by (simp add: test_makeNoiseHandler hd) (simp add: test_state_def)
qed

lemma test_raw_frame:
  assumes "length P < 256"
  shows "encodeFrame test_env (test_state 162 78 78 0\<lparr>sentIntro := True\<rparr>) P
     = (test_state 162 78 78 0\<lparr>sentIntro := True\<rparr>, Inr ([0, 0, of_nat (length P)] @ P))"
proof -
  let ?s = "test_state 162 78 78 0\<lparr>sentIntro := True\<rparr>"
  have w: "(if isFinished ?s then encrypt test_env ?s P else (?s, Inr P)) = (?s, Inr P)"
    by (simp add: test_state_def)
  have lt: "length P < 2 ^ 24"
    using assms by simp
  show ?thesis
    using encodeFrame_small [OF w lt] assms by (simp add: test_state_def)
qed

lemma test_transport_fields:
  "isFinished (test_transport ek dk rc wc)" "sentIntro (test_transport ek dk rc wc)"
  "inBytes (test_transport ek dk rc wc) = []"
  by (simp_all add: test_transport_def)

lemma test_transport_encrypt:
  "encrypt test_env (test_transport 193 194 0 2) [1, 2, 3]
     = (test_transport 193 194 0 3, Inr ([2, 3, 4] @ replicate 16 35))"
  "encrypt test_env (test_transport 193 194 0 3) [5]
     = (test_transport 193 194 0 4, Inr ([6] @ replicate 16 36))"
  by (simp_all add: eval_defs test_transport_def sum_list_replicate)

lemma test_transport_decrypt:
  "decrypt test_env (test_transport 194 193 2 0) ([2, 3, 4] @ replicate 16 35)
     = (test_transport 194 193 3 0, Inr [1, 2, 3])"
  "decrypt test_env (test_transport 194 193 3 0) ([6] @ replicate 16 36)
     = (test_transport 194 193 4 0, Inr [5])"
  by (simp_all add: eval_defs test_transport_def sum_list_replicate)

lemma test_transport_frame:
  "encodeFrame test_env (test_transport 193 194 0 2) [1, 2, 3]
     = (test_transport 193 194 0 3, Inr ([0, 0, 19] @ [2, 3, 4] @ replicate 16 35))"
  "encodeFrame test_env (test_transport 193 194 0 3) [5]
     = (test_transport 193 194 0 4, Inr ([0, 0, 17] @ [6] @ replicate 16 36))"
proof -
  have w1: "(if isFinished (test_transport 193 194 0 2)
             then encrypt test_env (test_transport 193 194 0 2) [1, 2, 3]
             else (test_transport 193 194 0 2, Inr [1, 2, 3]))
      = (test_transport 193 194 0 3, Inr ([2, 3, 4] @ replicate 16 35))"
    by (simp add: test_transport_encrypt test_transport_fields)
  have w2: "(if isFinished (test_transport 193 194 0 3)
             then encrypt test_env (test_transport 193 194 0 3) [5]
             else (test_transport 193 194 0 3, Inr [5]))
      = (test_transport 193 194 0 4, Inr ([6] @ replicate 16 36))"
    by (simp add: test_transport_encrypt test_transport_fields)
  show "encodeFrame test_env (test_transport 193 194 0 2) [1, 2, 3]
     = (test_transport 193 194 0 3, Inr ([0, 0, 19] @ [2, 3, 4] @ replicate 16 35))"
    using encodeFrame_small [OF w1] by (simp add: test_transport_fields)
  show "encodeFrame test_env (test_transport 193 194 0 3) [5]
     = (test_transport 193 194 0 4, Inr ([0, 0, 17] @ [6] @ replicate 16 36))"
    using encodeFrame_small [OF w2] by (simp add: test_transport_fields)
qed

lemma test_receiver: "inBytes (makeNoiseHandler test_env [2]) = []"
  "\<not> isFinished (makeNoiseHandler test_env [2])"
  by (simp_all add: makeNoiseHandler_def Let_def authenticate_fields)




subsection \<open>C2: no nonce is used twice with a key\<close>







subsection \<open>A frame that was encoded, received\<close>

lemma encrypt_hash_finished: "isFinished s \<Longrightarrow> hash (fst (encrypt E s p)) = hash s"
  by (rule encrypt_cases [where E = E and s = s and p = p]) (simp_all add: authenticate_def)

lemma decrypt_hash_finished: "isFinished s \<Longrightarrow> hash (fst (decrypt E s c)) = hash s"
  by (rule decrypt_cases [where E = E and s = s and c = c]) (simp_all add: authenticate_def)

text \<open>
  The receiver opens what the sender has sealed, when the cipher is correct and the two
  agree on the key, the hash and the counter.
\<close>

lemma decrypt_of_encrypt:
  assumes ok: "aead_correct E"
    and enc: "encrypt E s P = (s', Inr wire)"
    and key: "decKey r = encKey s" and h: "hash r = hash s"
    and ctr: "(if isFinished r then readCounter r else writeCounter r) = writeCounter s"
  shows "snd (decrypt E r wire) = Inr P"
proof -
  have "\<exists>ct tag. aes_gcm_encrypt E (encKey s) (generateIV (writeCounter s)) TAG_LENGTH (hash s) P
        = Some (ct, tag) \<and> wire = ct @ tag"
    using enc
    by (cases "aes_gcm_encrypt E (encKey s) (generateIV (writeCounter s)) TAG_LENGTH (hash s) P")
       (auto simp add: encrypt_def Let_def)
  then obtain ct tag
    where g: "aes_gcm_encrypt E (encKey s) (generateIV (writeCounter s)) TAG_LENGTH (hash s) P
        = Some (ct, tag)"
      and wire: "wire = ct @ tag"
    by blast
  have lt: "length tag = 16"
    and dec: "aes_gcm_decrypt E (encKey s) (generateIV (writeCounter s)) (hash s) tag ct = Some P"
    using ok g unfolding aead_correct_def TAG_LENGTH_16 by blast+
  have "slice_bytes wire 0 (int (length wire) - int TAG_LENGTH) = ct"
    and "slice_from wire (int (length wire) - int TAG_LENGTH) = tag"
    using split_tag_long [of wire] by (simp_all add: wire lt)
  then show ?thesis
    using dec key h ctr by (simp add: decrypt_def Let_def)
qed

lemma frame_reassembly_decrypted:
  assumes enc: "encodeFrame E s P = (s', Inr frame)"
    and intro: "sentIntro s"
    and len: "3 < length frame" "length frame < 2 ^ 24 + 3"
    and acc: "inBytes r = []"
    and chunks: "concat chunks = frame"
    and mode: "isFinished r = isFinished s"
    and fin: "isFinished s \<longrightarrow>
        decrypt E r (drop 3 frame) = (r1, Inr P) \<and> decodeBinaryNode E P = Some node"
  shows "\<exists>r'. feed E r chunks = (r', [if isFinished s then Node node else Raw P], None)"
proof -
  obtain wire a b c
    where w: "(if isFinished s then encrypt E s P else (s, Inr P)) = (s', Inr wire)"
      and frame: "frame = a # b # c # wire" and n: "be_val [a, b, c] = length wire"
    using encodeFrame_sent [OF enc intro len(2)] by blast
  have ne: "wire \<noteq> []"
    using len(1) by (auto simp add: frame)
  have i: "inBytes (r\<lparr>inBytes := a # b # c # wire\<rparr>) = a # b # c # wire @ []"
    by simp
  have r0: "r\<lparr>inBytes := []\<rparr> = r"
    using acc by (cases r) simp
  have "\<exists>r'. decodeLoop E (r\<lparr>inBytes := a # b # c # wire\<rparr>) []
            = (r', [if isFinished s then Node node else Raw P], None) \<and> inBytes r' = []"
  proof (cases "isFinished s")
    case True
    then have d: "decrypt E r wire = (r1, Inr P)" and nd: "decodeBinaryNode E P = Some node"
      using fin by (simp_all add: frame)
    have e1: "inBytes r1 = []"
      using decrypt_fields(6) [of E r wire] acc by (simp add: d)
    then have r1: "r1\<lparr>inBytes := []\<rparr> = r1"
      by (cases r1) simp
    have "decodeLoop E (r\<lparr>inBytes := a # b # c # wire\<rparr>) [] = decodeLoop E r1 ([] @ [Node node])"
      using decodeLoop_node_frame [where E = E and ?r1.0 = r1 and out = "[]", OF _ i n ne _ nd] True mode d
      by (simp add: r0 r1)
    then show ?thesis
      using True by (simp add: decodeLoop_empty [OF e1] e1)
  next
    case False
    then have "wire = P"
      using w by simp
    moreover have "decodeLoop E (r\<lparr>inBytes := a # b # c # wire\<rparr>) []
        = decodeLoop E r ([] @ [Raw wire])"
      using decodeLoop_raw_frame [where E = E and out = "[]", OF _ i n ne] False mode by (simp add: r0)
    ultimately show ?thesis
      using False by (simp add: decodeLoop_empty [OF acc] acc)
  qed
  then obtain r' where "decodeLoop E (r\<lparr>inBytes := a # b # c # wire\<rparr>) []
      = (r', [if isFinished s then Node node else Raw P], None)" and "inBytes r' = []"
    by blast
  from feed_one_frame [where cs = chunks, OF n this] show ?thesis
    using chunks acc by (simp add: frame)
qed

text \<open>
  One frame, cut into chunks. A handler that has already sent its header encodes a payload
  whose bytes on the wire are not empty and are fewer than \<open>2^24\<close>. The frame is cut into
  chunks in any way, empty chunks included, and the chunks are fed in order to
  \<open>decodeFrame\<close> of a handler in the same phase whose buffer is empty. Then \<open>onFrame\<close> is
  called exactly once in all these calls: with the payload itself before \<open>finishInit\<close>;
  after it, when the cipher is correct and the receiver's \<open>decKey\<close>, \<open>hash\<close> and
  \<open>readCounter\<close> are the sender's \<open>encKey\<close>, \<open>hash\<close> and \<open>writeCounter\<close>, with the binary
  node that \<open>decodeBinaryNode\<close> makes of the payload.
\<close>

lemma frame_reassembly:
  assumes enc: "encodeFrame E s P = (s', Inr frame)"
    and intro: "sentIntro s"
    and len: "3 < length frame" "length frame < 2 ^ 24 + 3"
    and acc: "inBytes r = []"
    and chunks: "concat chunks = frame"
    and mode: "isFinished r = isFinished s"
    and fin: "isFinished s \<longrightarrow>
        aead_correct E \<and> decKey r = encKey s \<and> hash r = hash s
        \<and> readCounter r = writeCounter s \<and> decodeBinaryNode E P = Some node"
  shows "\<exists>r'. feed E r chunks = (r', [if isFinished s then Node node else Raw P], None)"
proof -
  have "isFinished s \<longrightarrow>
      decrypt E r (drop 3 frame) = (fst (decrypt E r (drop 3 frame)), Inr P)
      \<and> decodeBinaryNode E P = Some node"
  proof
    assume f: "isFinished s"
    obtain wire a b c
      where w: "(if isFinished s then encrypt E s P else (s, Inr P)) = (s', Inr wire)"
        and frame: "frame = a # b # c # wire"
      using encodeFrame_sent [OF enc intro len(2)] by blast
    have e: "encrypt E s P = (s', Inr wire)"
      using w f by simp
    have "snd (decrypt E r wire) = Inr P"
      by (rule decrypt_of_encrypt [OF _ e]) (use fin f mode in simp_all)
    then show "decrypt E r (drop 3 frame) = (fst (decrypt E r (drop 3 frame)), Inr P)
      \<and> decodeBinaryNode E P = Some node"
      using fin f by (simp add: frame prod_eq_iff)
  qed
  from frame_reassembly_decrypted [OF enc intro len acc chunks mode this] show ?thesis .
qed

lemma coalesced_frames_decrypted:
  assumes e1: "encodeFrame E s P1 = (s1, Inr frame1)"
    and e2: "encodeFrame E s1 P2 = (s2, Inr frame2)"
    and intro: "sentIntro s"
    and len1: "3 < length frame1" "length frame1 < 2 ^ 24 + 3"
    and len2: "3 < length frame2" "length frame2 < 2 ^ 24 + 3"
    and acc: "inBytes r = []"
    and mode: "isFinished r = isFinished s"
    and fin: "isFinished s \<longrightarrow>
        decrypt E r (drop 3 frame1) = (r1, Inr P1) \<and> decodeBinaryNode E P1 = Some node1
        \<and> decrypt E r1 (drop 3 frame2) = (r2, Inr P2) \<and> decodeBinaryNode E P2 = Some node2"
  shows "\<exists>r'. decodeFrame E r (frame1 @ frame2) =
           (r', if isFinished s then [Node node1, Node node2] else [Raw P1, Raw P2], None)"
proof -
  obtain w1 a b c
    where w1: "(if isFinished s then encrypt E s P1 else (s, Inr P1)) = (s1, Inr w1)"
      and f1: "frame1 = a # b # c # w1" and n1: "be_val [a, b, c] = length w1"
    using encodeFrame_sent [OF e1 intro len1(2)] by blast
  have intro1: "sentIntro s1" and fin1: "isFinished s1 = isFinished s"
    using encodeFrame_state [OF e1 intro len1(2)] by simp_all
  obtain w2 a' b' c'
    where w2: "(if isFinished s1 then encrypt E s1 P2 else (s1, Inr P2)) = (s2, Inr w2)"
      and f2: "frame2 = a' # b' # c' # w2" and n2: "be_val [a', b', c'] = length w2"
    using encodeFrame_sent [OF e2 intro1 len2(2)] by blast
  have ne1: "w1 \<noteq> []" and ne2: "w2 \<noteq> []"
    using len1(1) len2(1) by (auto simp add: f1 f2)
  show ?thesis
  proof (cases "isFinished s")
    case True
    then have d1: "decrypt E r w1 = (r1, Inr P1)" and nd1: "decodeBinaryNode E P1 = Some node1"
      and d2: "decrypt E r1 w2 = (r2, Inr P2)" and nd2: "decodeBinaryNode E P2 = Some node2"
      using fin by (simp_all add: f1 f2)
    have fr: "isFinished r"
      using True mode by simp
    have "decodeFrame E r (frame1 @ frame2) = (r2, [Node node1, Node node2], None)"
      unfolding f1 f2 by (rule decodeFrame_two_nodes [OF n1 n2 ne1 ne2 acc fr d1 nd1 d2 nd2])
    then show ?thesis
      using True by simp
  next
    case False
    then have p1: "w1 = P1"
      using w1 by simp
    have p2: "w2 = P2"
      using w2 False fin1 by simp
    have nf: "\<not> isFinished r"
      using False mode by simp
    have "decodeFrame E r (frame1 @ frame2) = (r, [Raw w1, Raw w2], None)"
      unfolding f1 f2 by (rule decodeFrame_two_raw [OF n1 n2 ne1 ne2 acc nf])
    then show ?thesis
      using False by (simp add: p1 p2)
  qed
qed

text \<open>
  Two frames in one chunk. Under the same conditions for each of two payloads encoded one
  after the other, a single \<open>decodeFrame\<close> call on the two frames together calls \<open>onFrame\<close>
  exactly twice, first for the first payload and then for the second.
\<close>

lemma coalesced_frames:
  assumes e1: "encodeFrame E s P1 = (s1, Inr frame1)"
    and e2: "encodeFrame E s1 P2 = (s2, Inr frame2)"
    and intro: "sentIntro s"
    and len1: "3 < length frame1" "length frame1 < 2 ^ 24 + 3"
    and len2: "3 < length frame2" "length frame2 < 2 ^ 24 + 3"
    and acc: "inBytes r = []"
    and mode: "isFinished r = isFinished s"
    and fin: "isFinished s \<longrightarrow>
        aead_correct E \<and> decKey r = encKey s \<and> hash r = hash s
        \<and> readCounter r = writeCounter s
        \<and> decodeBinaryNode E P1 = Some node1 \<and> decodeBinaryNode E P2 = Some node2"
  shows "\<exists>r'. decodeFrame E r (frame1 @ frame2) =
           (r', if isFinished s then [Node node1, Node node2] else [Raw P1, Raw P2], None)"
proof -
  let ?r1 = "fst (decrypt E r (drop 3 frame1))"
  let ?r2 = "fst (decrypt E ?r1 (drop 3 frame2))"
  have "isFinished s \<longrightarrow>
      decrypt E r (drop 3 frame1) = (?r1, Inr P1) \<and> decodeBinaryNode E P1 = Some node1
      \<and> decrypt E ?r1 (drop 3 frame2) = (?r2, Inr P2) \<and> decodeBinaryNode E P2 = Some node2"
  proof
    assume f: "isFinished s"
    then have fr: "isFinished r"
      using mode by simp
    obtain w1 a b c
      where w1: "(if isFinished s then encrypt E s P1 else (s, Inr P1)) = (s1, Inr w1)"
        and f1: "frame1 = a # b # c # w1"
      using encodeFrame_sent [OF e1 intro len1(2)] by blast
    have intro1: "sentIntro s1" and fin1: "isFinished s1 = isFinished s"
      using encodeFrame_state [OF e1 intro len1(2)] by simp_all
    obtain w2 a' b' c'
      where w2: "(if isFinished s1 then encrypt E s1 P2 else (s1, Inr P2)) = (s2, Inr w2)"
        and f2: "frame2 = a' # b' # c' # w2"
      using encodeFrame_sent [OF e2 intro1 len2(2)] by blast
    have en1: "encrypt E s P1 = (s1, Inr w1)"
      using w1 f by simp
    have en2: "encrypt E s1 P2 = (s2, Inr w2)"
      using w2 f fin1 by simp
    have s1: "s1 = fst (encrypt E s P1)"
      using en1 by simp
    have d1: "snd (decrypt E r w1) = Inr P1"
      by (rule decrypt_of_encrypt [OF _ en1]) (use fin f fr in simp_all)
    have c1: "readCounter (fst (decrypt E r w1)) = writeCounter s1"
      using decrypt_counters(2) [OF d1 fr] encrypt_writeCounter(1) [of E s P1 w1] en1 fin f
      by simp
    have d2: "snd (decrypt E (fst (decrypt E r w1)) w2) = Inr P2"
      by (rule decrypt_of_encrypt [OF _ en2])
         (use fin f fr c1 in \<open>simp_all add: decrypt_fields decrypt_hash_finished
            encrypt_fields encrypt_hash_finished s1\<close>)
    show "decrypt E r (drop 3 frame1) = (?r1, Inr P1) \<and> decodeBinaryNode E P1 = Some node1
      \<and> decrypt E ?r1 (drop 3 frame2) = (?r2, Inr P2) \<and> decodeBinaryNode E P2 = Some node2"
      using d1 d2 fin f by (simp add: f1 f2 prod_eq_iff)
  qed
  from coalesced_frames_decrypted [OF e1 e2 intro len1 len2 acc mode this] show ?thesis .
qed

lemma test_env_aead_correct: "aead_correct test_env"
  by (auto simp add: aead_correct_def test_env_def TAG_LENGTH_16 test_mac_def comp_def)

lemma frame_reassembly_instance:
  "fst (snd (feed test_env (makeNoiseHandler test_env [2]) [[0], [0, 3, 1], [], [2, 3]]))
     = [Raw [1, 2, 3]]
   \<and> fst (snd (feed test_env (test_transport 194 193 2 0)
                  [[0, 0], [19, 2, 3], [], [4] @ replicate 16 35]))
     = [Node [1, 2, 3]]"
proof -
  let ?s = "test_state 162 78 78 0\<lparr>sentIntro := True\<rparr>"
  have e1: "encodeFrame test_env ?s [1, 2, 3] = (?s, Inr [0, 0, 3, 1, 2, 3])"
    using test_raw_frame [of "[1, 2, 3]"] by simp
  have a1: "sentIntro ?s" "\<not> isFinished ?s"
    by (simp_all add: test_state_def)
  have "\<exists>r'. feed test_env (makeNoiseHandler test_env [2]) [[0], [0, 3, 1], [], [2, 3]]
      = (r', [if isFinished ?s then Node [] else Raw [1, 2, 3]], None)"
    by (rule frame_reassembly [OF e1 a1(1) _ _ test_receiver(1)])
       (simp_all add: a1 test_receiver)
  then have raw: "fst (snd (feed test_env (makeNoiseHandler test_env [2]) [[0], [0, 3, 1], [], [2, 3]]))
      = [Raw [1, 2, 3]]"
    using a1 by auto
  let ?t = "test_transport 193 194 0 2"
  let ?r = "test_transport 194 193 2 0"
  have e2: "encodeFrame test_env ?t [1, 2, 3]
      = (test_transport 193 194 0 3, Inr ([0, 0, 19] @ [2, 3, 4] @ replicate 16 35))"
    by (rule test_transport_frame)
  have d: "isFinished ?t \<longrightarrow>
      aead_correct test_env \<and> decKey ?r = encKey ?t \<and> hash ?r = hash ?t
      \<and> readCounter ?r = writeCounter ?t
      \<and> decodeBinaryNode test_env [1, 2, 3] = Some [1, 2, 3]"
    using test_env_aead_correct by (simp add: test_transport_def) (simp add: test_env_def)
  have "\<exists>r'. feed test_env ?r [[0, 0], [19, 2, 3], [], [4] @ replicate 16 35]
      = (r', [if isFinished ?t then Node [1, 2, 3] else Raw [1, 2, 3]], None)"
    by (rule frame_reassembly [OF e2 test_transport_fields(2) _ _ test_transport_fields(3) _ _ d])
       (simp_all add: test_transport_fields)
  then have node: "fst (snd (feed test_env ?r [[0, 0], [19, 2, 3], [], [4] @ replicate 16 35]))
      = [Node [1, 2, 3]]"
    by (auto simp add: test_transport_fields)
  show ?thesis
    using raw node by blast
qed

lemma coalesced_frames_instance:
  "fst (snd (decodeFrame test_env (makeNoiseHandler test_env [2]) ([0, 0, 2, 1, 2] @ [0, 0, 1, 3])))
     = [Raw [1, 2], Raw [3]]
   \<and> fst (snd (decodeFrame test_env (test_transport 194 193 2 0)
                  (([0, 0, 19] @ [2, 3, 4] @ replicate 16 35) @ ([0, 0, 17] @ [6] @ replicate 16 36))))
     = [Node [1, 2, 3], Node [5]]"
proof -
  let ?s = "test_state 162 78 78 0\<lparr>sentIntro := True\<rparr>"
  have e1: "encodeFrame test_env ?s [1, 2] = (?s, Inr [0, 0, 2, 1, 2])"
    and e2: "encodeFrame test_env ?s [3] = (?s, Inr [0, 0, 1, 3])"
    using test_raw_frame [of "[1, 2]"] test_raw_frame [of "[3]"] by simp_all
  have a1: "sentIntro ?s" "\<not> isFinished ?s"
    by (simp_all add: test_state_def)
  have "\<exists>r'. decodeFrame test_env (makeNoiseHandler test_env [2]) ([0, 0, 2, 1, 2] @ [0, 0, 1, 3])
      = (r', if isFinished ?s then [Node [], Node []] else [Raw [1, 2], Raw [3]], None)"
    by (rule coalesced_frames [OF e1 e2 a1(1) _ _ _ _ test_receiver(1)])
       (simp_all add: a1 test_receiver)
  then have raw: "fst (snd (decodeFrame test_env (makeNoiseHandler test_env [2])
      ([0, 0, 2, 1, 2] @ [0, 0, 1, 3]))) = [Raw [1, 2], Raw [3]]"
    using a1 by auto
  let ?t = "test_transport 193 194 0 2"
  let ?r = "test_transport 194 193 2 0"
  let ?f1 = "[0, 0, 19] @ [2, 3, 4] @ replicate 16 35"
  let ?f2 = "[0, 0, 17] @ [6] @ replicate 16 36"
  have d: "isFinished ?t \<longrightarrow>
      aead_correct test_env \<and> decKey ?r = encKey ?t \<and> hash ?r = hash ?t
      \<and> readCounter ?r = writeCounter ?t
      \<and> decodeBinaryNode test_env [1, 2, 3] = Some [1, 2, 3]
      \<and> decodeBinaryNode test_env [5] = Some [5]"
    using test_env_aead_correct by (simp add: test_transport_def) (simp add: test_env_def)
  have "\<exists>r'. decodeFrame test_env ?r (?f1 @ ?f2)
      = (r', if isFinished ?t
             then [Node [1, 2, 3], Node [5]] else [Raw [1, 2, 3], Raw [5]], None)"
    by (rule coalesced_frames [OF test_transport_frame(1) test_transport_frame(2)
          test_transport_fields(2) _ _ _ _ test_transport_fields(3) _ d])
       (simp_all add: test_transport_fields)
  then have node: "fst (snd (decodeFrame test_env ?r (?f1 @ ?f2))) = [Node [1, 2, 3], Node [5]]"
    by (auto simp add: test_transport_fields)
  show ?thesis
    using raw node by blast
qed

text \<open>
  A length of zero at the head of the buffer ends the loop of \<open>decodeFrame\<close> as a missing
  length does, and nothing takes the three bytes off the buffer: from then on no call of
  \<open>decodeFrame\<close> dispatches anything.
\<close>

lemma zero_length_blocks:
  assumes "inBytes s = 0 # 0 # 0 # rest"
  shows "decodeFrame E s d = (s\<lparr>inBytes := inBytes s @ d\<rparr>, [], None)"
  unfolding decodeFrame_def
  by (rule decodeLoop_wait) (simp add: assms be_val_def)

lemma zero_length_blocks_feed:
  assumes "inBytes s = 0 # 0 # 0 # rest"
  shows "feed E s cs = (s\<lparr>inBytes := inBytes s @ concat cs\<rparr>, [], None)"
  using assms
proof (induction cs arbitrary: s rest)
  case Nil
  then show ?case by simp
next
  case (Cons c cs)
  have "feed E (s\<lparr>inBytes := inBytes s @ c\<rparr>) cs
      = (s\<lparr>inBytes := inBytes s @ c\<rparr>\<lparr>inBytes := inBytes (s\<lparr>inBytes := inBytes s @ c\<rparr>) @ concat cs\<rparr>,
         [], None)"
    by (rule Cons.IH [where rest = "rest @ c"]) (simp add: Cons.prems)
  then show ?case
    by (simp add: zero_length_blocks [OF Cons.prems])
qed

subsection \<open>C3: one frame, split into chunks\<close>

text \<open>
  C3, at the empty payload. \<open>encodeFrame\<close> accepts an empty payload: before \<open>finishInit\<close>,
  a handler that has sent its header encodes it as the three bytes \<open>00 00 00\<close>. Fed to
  \<open>decodeFrame\<close> of a new handler, in one chunk or in two, these bytes are never
  dispatched: \<open>onFrame\<close> is not called, where the claim asks for one call with the
  payload, and the three bytes stay at the head of the buffer. The loop of \<open>decodeFrame\<close> tests \<open>size\<close> for truth, and a
  length of 0 is falsy as the missing length of a short buffer is.
\<close>
theorem empty_payload_never_dispatched:
  "snd (encodeFrame test_env (fst (encodeFrame test_env (makeNoiseHandler test_env [1]) [9])) [])
     = Inr [0, 0, 0]
   \<and> feed test_env (makeNoiseHandler test_env [2]) [[0, 0, 0]]
     = (makeNoiseHandler test_env [2]\<lparr>inBytes := [0, 0, 0]\<rparr>, [], None)
   \<and> feed test_env (makeNoiseHandler test_env [2]) [[0], [0, 0]]
     = (makeNoiseHandler test_env [2]\<lparr>inBytes := [0, 0, 0]\<rparr>, [], None)"
proof -
  let ?r = "makeNoiseHandler test_env [2]"
  have "snd (encodeFrame test_env (fst (encodeFrame test_env (makeNoiseHandler test_env [1]) [9])) [])
     = Inr [0, 0, 0]"
    using test_raw_frame [of "[]"] by (simp add: test_first_frame)
  moreover have whole: "decodeFrame test_env ?r [0, 0, 0] = (?r\<lparr>inBytes := [0, 0, 0]\<rparr>, [], None)"
    unfolding decodeFrame_def test_receiver(1) append_Nil
    by (rule decodeLoop_wait) (simp add: be_val_def)
  moreover have first: "decodeFrame test_env ?r [0] = (?r\<lparr>inBytes := [0]\<rparr>, [], None)"
    unfolding decodeFrame_def test_receiver(1) append_Nil
    by (rule decodeLoop_wait) simp
  moreover have rest: "decodeFrame test_env (?r\<lparr>inBytes := [0]\<rparr>) [0, 0]
      = (?r\<lparr>inBytes := [0, 0, 0]\<rparr>, [], None)"
    using decodeLoop_wait [of "?r\<lparr>inBytes := [0, 0, 0]\<rparr>" test_env "[]"]
    by (simp add: decodeFrame_def be_val_def)
  ultimately show ?thesis
    by simp
qed

subsection \<open>C4: two frames in one chunk\<close>

text \<open>
  C4, at an empty first payload. The frame of the empty payload and the frame of the
  payload \<open>07\<close>, encoded one after the other before \<open>finishInit\<close>, are \<open>00 00 00\<close> and
  \<open>00 00 01 07\<close>. A single \<open>decodeFrame\<close> call on the seven bytes calls \<open>onFrame\<close> for neither
  payload, where the claim asks for two calls, and leaves all seven bytes in the buffer:
  the zero length of the first frame ends the loop before the second frame is looked at.
\<close>
theorem empty_first_frame_blocks_second:
  "snd (encodeFrame test_env (fst (encodeFrame test_env (makeNoiseHandler test_env [1]) [9])) [])
     = Inr [0, 0, 0]
   \<and> snd (encodeFrame test_env (fst (encodeFrame test_env (makeNoiseHandler test_env [1]) [9])) [7])
     = Inr [0, 0, 1, 7]
   \<and> decodeFrame test_env (makeNoiseHandler test_env [2]) ([0, 0, 0] @ [0, 0, 1, 7])
     = (makeNoiseHandler test_env [2]\<lparr>inBytes := [0, 0, 0, 0, 0, 1, 7]\<rparr>, [], None)"
proof -
  have "snd (encodeFrame test_env (fst (encodeFrame test_env (makeNoiseHandler test_env [1]) [9])) [])
     = Inr [0, 0, 0]"
    using test_raw_frame [of "[]"] by (simp add: test_first_frame)
  moreover have "snd (encodeFrame test_env (fst (encodeFrame test_env (makeNoiseHandler test_env [1]) [9])) [7])
     = Inr [0, 0, 1, 7]"
    using test_raw_frame [of "[7]"] by (simp add: test_first_frame)
  moreover have "decodeFrame test_env (makeNoiseHandler test_env [2]) ([0, 0, 0] @ [0, 0, 1, 7])
     = (makeNoiseHandler test_env [2]\<lparr>inBytes := [0, 0, 0, 0, 0, 1, 7]\<rparr>, [], None)"
    unfolding decodeFrame_def test_receiver(1) append_Nil append_Cons
    by (rule decodeLoop_wait) (simp add: be_val_def)
  ultimately show ?thesis
    by blast
qed

subsection \<open>C5: what \<open>decrypt\<close> does\<close>

text \<open>
  For an input of at least 16 bytes \<open>decrypt\<close> does what is expected of it: the nonce is made
  from \<open>readCounter\<close> when finished and from \<open>writeCounter\<close> otherwise, the last 16 bytes are the
  tag and the bytes before them the ciphertext, a failure of the cipher leaves the state as
  it was, and a success advances the selected counter and then authenticates the input
  bytes, not the plaintext.
\<close>

lemma decrypt_long_input:
  assumes "16 \<le> length c"
  shows "decrypt E s c =
     (case aes_gcm_decrypt E (decKey s)
             (generateIV (if isFinished s then readCounter s else writeCounter s)) (hash s)
             (drop (length c - 16) c) (take (length c - 16) c) of
        None \<Rightarrow> (s, Inl CipherError)
      | Some result \<Rightarrow>
          (authenticate E (if isFinished s then s\<lparr>readCounter := add1 (readCounter s)\<rparr>
                           else s\<lparr>writeCounter := add1 (writeCounter s)\<rparr>) c,
           Inr result))"
  by (simp add: decrypt_def Let_def split_tag_long [OF assms] split: option.splits)

lemma split_tag_12:
  "slice_bytes [c0, c1, c2, c3, c4, c5, c6, c7, c8, c9, ca, cb] 0
      (int (length [c0, c1, c2, c3, c4, c5, c6, c7, c8, c9, ca, cb]) - int TAG_LENGTH)
     = [c0, c1, c2, c3, c4, c5, c6, c7]"
  "slice_from [c0, c1, c2, c3, c4, c5, c6, c7, c8, c9, ca, cb]
      (int (length [c0, c1, c2, c3, c4, c5, c6, c7, c8, c9, ca, cb]) - int TAG_LENGTH)
     = [c8, c9, ca, cb]"
  by (simp_all add: slice_bytes_def slice_from_def rel_index_def TAG_LENGTH_16 Let_def)

text \<open>
  C5. The specification has every input split into a ciphertext body and a trailing
  16-byte tag. An input shorter than 16 bytes is not: \<open>ciphertext.length - TAG_LENGTH\<close> is negative
  there and \<open>slice\<close> counts a negative index from the end. Of a 12-byte input the first 8
  bytes are the body and the last 4 bytes the tag that is given to the cipher.
\<close>

theorem decrypt_twelve_bytes:
  "decrypt E s [c0, c1, c2, c3, c4, c5, c6, c7, c8, c9, ca, cb] =
     (case aes_gcm_decrypt E (decKey s)
             (generateIV (if isFinished s then readCounter s else writeCounter s)) (hash s)
             [c8, c9, ca, cb] [c0, c1, c2, c3, c4, c5, c6, c7] of
        None \<Rightarrow> (s, Inl CipherError)
      | Some result \<Rightarrow>
          (authenticate E (if isFinished s then s\<lparr>readCounter := add1 (readCounter s)\<rparr>
                           else s\<lparr>writeCounter := add1 (writeCounter s)\<rparr>)
             [c0, c1, c2, c3, c4, c5, c6, c7, c8, c9, ca, cb],
           Inr result))"
  unfolding decrypt_def Let_def split_tag_12 by (rule refl)

text \<open>
  With a cipher that accepts a truncated tag, as \<open>setAuthTag\<close> does when \<open>createDecipheriv\<close>
  was given no \<open>authTagLength\<close>, such an input decrypts and advances the counter.
\<close>

lemma decrypt_twelve_bytes_accepted:
  "decrypt test_env (finishInit test_env (makeNoiseHandler test_env [1]))
      ([1, 2, 3, 4, 5, 6, 7, 8] @ replicate 4 65)
     = (finishInit test_env (makeNoiseHandler test_env [1])\<lparr>readCounter := 1\<rparr>,
        Inr [0, 1, 2, 3, 4, 5, 6, 7])"
  by (simp add: eval_defs sum_list_replicate)

subsection \<open>C6: \<open>processHandshake\<close>\<close>

text \<open>
  C6. Take a handshake message for which the steps before the comparison succeed, in the
  order of the code: \<open>authenticate(ephemeral)\<close>, first key mix, \<open>decrypt(static)\<close> giving the
  static key, second key mix, \<open>decrypt(payload)\<close>, the two certificate decodings giving the
  certificate's key. If the two keys differ, \<open>processHandshake\<close> throws the certificate
  mismatch and returns nothing. If they are equal, it encrypts the public key of the
  ephemeral pair, does the third key mix and returns the encrypted key.
\<close>

theorem processHandshake_certificate_check:
  assumes "sharedKey E privateKey (ephemeral hello) = Some k1"
    and "decrypt E (mixIntoKey E (authenticate E s (ephemeral hello)) k1) (static hello)
           = (s3, Inr decStaticContent)"
    and "sharedKey E privateKey decStaticContent = Some k2"
    and "decrypt E (mixIntoKey E s3 k2) (payload hello) = (s5, Inr certDecoded)"
    and "NoiseCertificate_decode E certDecoded = Some certDetails"
    and "NoiseCertificateDetails_decode E certDetails = Some certKey"
  shows "(decStaticContent \<noteq> certKey \<longrightarrow>
            processHandshake E privateKey s hello noiseKey = (s5, Inl CertMismatch))
    \<and> (decStaticContent = certKey \<longrightarrow>
         encrypt E s5 (public_key noiseKey) = (s6, Inr keyEnc) \<longrightarrow>
         sharedKey E (private_key noiseKey) (ephemeral hello) = Some k3 \<longrightarrow>
            processHandshake E privateKey s hello noiseKey = (mixIntoKey E s6 k3, Inr keyEnc))"
  using assms by (auto simp add: processHandshake_def Let_def)

theorem processHandshake_certificate_check_witness:
  "snd (processHandshake test_env [2] (makeNoiseHandler test_env [1])
          \<lparr>ephemeral = [3], static = [11, 12] @ replicate 16 97,
           payload = [1, 1, 11, 13] @ replicate 16 65\<rparr>
          \<lparr>public_key = [20, 21], private_key = [22]\<rparr>) = Inl CertMismatch
   \<and> snd (processHandshake test_env [2] (makeNoiseHandler test_env [1])
          \<lparr>ephemeral = [3], static = [11, 12] @ replicate 16 97,
           payload = [1, 1, 11, 12] @ replicate 16 65\<rparr>
          \<lparr>public_key = [20, 21], private_key = [22]\<rparr>) = Inr ([21, 22] @ replicate 16 194)"
proof -
  let ?bad = "\<lparr>ephemeral = [3], static = [11, 12] @ replicate 16 97,
                payload = [1, 1, 11, 13] @ replicate 16 65\<rparr>"
  let ?good = "\<lparr>ephemeral = [3], static = [11, 12] @ replicate 16 97,
                payload = [1, 1, 11, 12] @ replicate 16 65\<rparr>"
  let ?nk = "\<lparr>public_key = [20, 21], private_key = [22]\<rparr>"
  have k1: "sharedKey test_env [2] [3] = Some [2, 3]"
    and k2: "sharedKey test_env [2] [10, 11] = Some [2, 10, 11]"
    and k3: "sharedKey test_env [22] [3] = Some [22, 3]"
    and c1b: "NoiseCertificate_decode test_env [0, 0, 10, 12] = Some [0, 10, 12]"
    and c2b: "NoiseCertificateDetails_decode test_env [0, 10, 12] = Some [10, 12]"
    and c1g: "NoiseCertificate_decode test_env [0, 0, 10, 11] = Some [0, 10, 11]"
    and c2g: "NoiseCertificateDetails_decode test_env [0, 10, 11] = Some [10, 11]"
    by (simp_all add: test_env_def)
  have s2: "mixIntoKey test_env (authenticate test_env (test_state 162 78 78 0) [3]) [2, 3]
      = test_state 100 198 199 0"
    by (simp add: eval_defs test_state_def sum_list_replicate)
  have d1: "decrypt test_env (test_state 100 198 199 0) ([11, 12] @ replicate 16 97)
      = (test_state 217 198 199 1, Inr [10, 11])"
    by (simp add: eval_defs test_state_def sum_list_replicate)
  have s4: "mixIntoKey test_env (test_state 217 198 199 1) [2, 10, 11] = test_state 217 216 217 0"
    by (simp add: eval_defs test_state_def sum_list_replicate)
  have d2b: "decrypt test_env (test_state 217 216 217 0) ([1, 1, 11, 13] @ replicate 16 65)
      = (test_state 126 216 217 1, Inr [0, 0, 10, 12])"
    by (simp add: eval_defs test_state_def sum_list_replicate)
  have d2g: "decrypt test_env (test_state 217 216 217 0) ([1, 1, 11, 12] @ replicate 16 65)
      = (test_state 125 216 217 1, Inr [0, 0, 10, 11])"
    by (simp add: eval_defs test_state_def sum_list_replicate)
  have e: "encrypt test_env (test_state 125 216 217 1) [20, 21]
      = (test_state 29 216 217 2, Inr ([21, 22] @ replicate 16 194))"
    by (simp add: eval_defs test_state_def sum_list_replicate)
  have ne: "[10, 11] \<noteq> [10, 12 :: byte]"
    by simp
  have "processHandshake test_env [2] (test_state 162 78 78 0) ?bad ?nk
      = (test_state 126 216 217 1, Inl CertMismatch)"
    using processHandshake_certificate_check [of test_env "[2]" ?bad "[2, 3]"
        "test_state 162 78 78 0" "test_state 217 198 199 1" "[10, 11]"
        "[2, 10, 11]" "test_state 126 216 217 1" "[0, 0, 10, 12]" "[0, 10, 12]" "[10, 12]" ?nk]
      k1 k2 s2 d1 s4 d2b c1b c2b ne
    by simp
  moreover have "processHandshake test_env [2] (test_state 162 78 78 0) ?good ?nk
      = (mixIntoKey test_env (test_state 29 216 217 2) [22, 3], Inr ([21, 22] @ replicate 16 194))"
    using processHandshake_certificate_check [of test_env "[2]" ?good "[2, 3]"
        "test_state 162 78 78 0" "test_state 217 198 199 1" "[10, 11]"
        "[2, 10, 11]" "test_state 125 216 217 1" "[0, 0, 10, 11]" "[0, 10, 11]" "[10, 11]" ?nk
        "test_state 29 216 217 2" "[21, 22] @ replicate 16 194" "[22, 3]"]
      k1 k2 k3 s2 d1 s4 d2g c1g c2g e
    by simp
  ultimately show ?thesis
    by (simp add: test_makeNoiseHandler)
qed

subsection \<open>C7: \<open>finishInit\<close>\<close>

text \<open>
  C7. \<open>finishInit\<close> asks \<open>hkdf\<close> for 64 bytes from the empty input with the current salt,
  makes the first 32 bytes \<open>encKey\<close> and the rest \<open>decKey\<close> (two halves of one output, each of
  32 bytes when the output has 64), empties \<open>hash\<close>, sets both counters to 0 and
  \<open>isFinished\<close> to true. After it, whatever sequence of calls of the handler's methods
  follows, \<open>isFinished\<close> stays true and \<open>authenticate\<close> changes nothing, for every input.
\<close>

theorem finishInit_splits_keys:
  "finishInit E s =
     s\<lparr>encKey := take 32 (hkdf E [] 64 (salt s)), decKey := drop 32 (hkdf E [] 64 (salt s)),
       hash := [], readCounter := 0, writeCounter := 0, isFinished := True\<rparr>
   \<and> encKey (finishInit E s) @ decKey (finishInit E s) = hkdf E [] 64 (salt s)
   \<and> (length (hkdf E [] 64 (salt s)) = 64 \<longrightarrow>
        length (encKey (finishInit E s)) = 32 \<and> length (decKey (finishInit E s)) = 32)
   \<and> isFinished (calls E privateKey (finishInit E s) cs)
   \<and> authenticate E (calls E privateKey (finishInit E s) cs) d
       = calls E privateKey (finishInit E s) cs"
proof -
  have fin: "isFinished (calls E privateKey (finishInit E s) cs)"
    by (rule calls_isFinished) (simp add: finishInit_eq)
  have "encKey (finishInit E s) @ decKey (finishInit E s) = hkdf E [] 64 (salt s)"
    by (simp add: finishInit_eq)
  moreover have "length (hkdf E [] 64 (salt s)) = 64 \<longrightarrow>
        length (encKey (finishInit E s)) = 32 \<and> length (decKey (finishInit E s)) = 32"
    by (simp add: finishInit_eq)
  moreover note finishInit_eq [of E s] fin authenticate_finished [OF fin, of E d]
  ultimately show ?thesis
    by blast
qed

theorem finishInit_splits_keys_witness:
  "length (hkdf test_env [] 64 (salt (makeNoiseHandler test_env [1]))) = 64
   \<and> length (encKey (finishInit test_env (makeNoiseHandler test_env [1]))) = 32
   \<and> length (decKey (finishInit test_env (makeNoiseHandler test_env [1]))) = 32
   \<and> authenticate test_env
        (calls test_env [2] (finishInit test_env (makeNoiseHandler test_env [1]))
           [Method (Encrypt [5]), EncodeFrame [9], Method (MixIntoKey [7])]) [9]
     = calls test_env [2] (finishInit test_env (makeNoiseHandler test_env [1]))
           [Method (Encrypt [5]), EncodeFrame [9], Method (MixIntoKey [7])]"
proof -
  have h: "length (hkdf test_env [] 64 (salt (makeNoiseHandler test_env [1]))) = 64"
    by (simp add: test_env_def)
  show ?thesis
    using h finishInit_splits_keys [of test_env "makeNoiseHandler test_env [1]" "[2]"
        "[Method (Encrypt [5]), EncodeFrame [9], Method (MixIntoKey [7])]" "[9]"]
    by blast
qed

subsection \<open>C8: a failed \<open>decrypt\<close> changes nothing\<close>

text \<open>
  C8. When \<open>decrypt\<close> throws (the cipher rejects the key, the tag or the data), the state is
  the one before the call: no counter was advanced and the hash was not updated, since the
  throw comes before both.
\<close>

theorem decrypt_failure_leaves_state:
  assumes "decrypt E s ciphertext = (s', Inl e)"
  shows "s' = s \<and> e = CipherError"
  by (rule decrypt_cases [where E = E and s = s and c = ciphertext]) (use assms in simp_all)

theorem decrypt_failure_leaves_state_witness:
  "decrypt test_env (makeNoiseHandler test_env [1]) [1, 2, 3]
     = (makeNoiseHandler test_env [1], Inl CipherError)"
proof -
  have h: "decrypt test_env (makeNoiseHandler test_env [1]) [1, 2, 3]
     = (fst (decrypt test_env (makeNoiseHandler test_env [1]) [1, 2, 3]),
        Inl CipherError)"
    by (simp add: eval_defs)
  show ?thesis
    using h decrypt_failure_leaves_state [OF h] by simp
qed

subsection \<open>C9: the length prefix\<close>

text \<open>
  C9, as the code has it. Let \<open>wire\<close> be the bytes that go on the wire: the result of
  \<open>encrypt\<close> when finished, and the data itself otherwise. If its length is at least \<open>2^24\<close>
  and below \<open>2^32\<close>, \<open>encodeFrame\<close> throws the range error of \<open>writeUInt8\<close>. If its length is
  below \<open>2^24\<close>, \<open>encodeFrame\<close> returns the header (on the first frame only), three bytes
  that read big-endian are the length, and the bytes themselves. The operand of \<open>>>\<close> is
  taken modulo \<open>2^32\<close>, so at a length of \<open>2^32\<close> the check of \<open>writeUInt8\<close> sees 0 and a frame
  with the prefix 0 is returned, as \<open>encodeFrame_wraps_at_4GiB\<close> shows.
\<close>

theorem encodeFrame_length_prefix:
  assumes "(if isFinished s then encrypt E s d0 else (s, Inr d0)) = (s1, Inr wire)"
  shows "(2 ^ 24 \<le> length wire \<and> length wire < 2 ^ 32 \<longrightarrow>
            snd (encodeFrame E s d0) = Inl RangeError)
    \<and> (length wire < 2 ^ 24 \<longrightarrow>
          snd (encodeFrame E s d0) =
            Inr ((if sentIntro s then [] else NOISE_WA_HEADER E)
                 @ [of_nat (length wire div 65536), of_nat (length wire mod 65536 div 256),
                    of_nat (length wire mod 65536)]
                 @ wire)
          \<and> be_val [of_nat (length wire div 65536), of_nat (length wire mod 65536 div 256),
                     of_nat (length wire mod 65536)] = length wire)"
proof -
  have intro: "sentIntro s1 = sentIntro s"
    using assms encrypt_fields(6) [of E s d0] by (auto split: if_splits)
  have big: "snd (encodeFrame E s d0) = Inl RangeError"
    if "2 ^ 24 \<le> length wire" "length wire < 2 ^ 32"
    using encodeFrame_range_error [OF assms high_byte_big [OF that]] by simp
  have small: "snd (encodeFrame E s d0) =
      Inr ((if sentIntro s then [] else NOISE_WA_HEADER E)
           @ [of_nat (length wire div 65536), of_nat (length wire mod 65536 div 256),
              of_nat (length wire mod 65536)]
           @ wire)"
    if lt: "length wire < 2 ^ 24"
  proof -
    have lt31: "length wire < 2 ^ 31"
      using lt by simp
    have hi: "drop_bit 16 (ToInt32 (length wire)) = int (length wire div 65536)"
      by (rule high_byte_small(1) [OF lt])
    have "0 \<le> drop_bit 16 (ToInt32 (length wire))" "drop_bit 16 (ToInt32 (length wire)) \<le> 255"
      using high_byte_small(2) [OF lt] by (simp_all add: hi)
    from encodeFrame_frame [OF assms this] show ?thesis
      by (simp add: hi low_bytes [OF lt31] intro byte_of_int_div)
  qed
  show ?thesis
    using big small prefix_value by blast
qed

theorem encodeFrame_length_prefix_witness:
  "snd (encodeFrame test_env (makeNoiseHandler test_env [1]) (replicate 16777216 0)) = Inl RangeError
   \<and> snd (encodeFrame test_env (makeNoiseHandler test_env [1]) [1, 2, 3])
       = Inr ([87, 65, 6, 2] @ [0, 0, 3] @ [1, 2, 3])"
proof -
  let ?s = "makeNoiseHandler test_env [1]"
  have nf: "\<not> isFinished ?s" "\<not> sentIntro ?s"
    by (simp_all add: test_makeNoiseHandler test_state_def)
  have h1: "(if isFinished ?s then encrypt test_env ?s (replicate 16777216 0)
             else (?s, Inr (replicate 16777216 0))) = (?s, Inr (replicate 16777216 0))"
    and h2: "(if isFinished ?s then encrypt test_env ?s [1, 2, 3] else (?s, Inr [1, 2, 3]))
             = (?s, Inr [1, 2, 3])"
    using nf by simp_all
  have l1: "2 ^ 24 \<le> length (replicate 16777216 (0 :: byte)) \<and> length (replicate 16777216 (0 :: byte)) < 2 ^ 32"
    and l2: "length [1, 2, 3 :: byte] < 2 ^ 24"
    by simp_all
  have hd: "NOISE_WA_HEADER test_env = [87, 65, 6, 2]"
    by (simp add: test_env_def)
  show ?thesis
    using encodeFrame_length_prefix [OF h1] encodeFrame_length_prefix [OF h2] l1 l2 nf hd
    by simp
qed

theorem encodeFrame_wraps_at_4GiB:
  "snd (encodeFrame test_env (makeNoiseHandler test_env [1]) (replicate 4294967296 0))
     = Inr ([87, 65, 6, 2] @ [0, 0, 0] @ replicate 4294967296 0)"
proof -
  let ?s = "makeNoiseHandler test_env [1]"
  have nf: "\<not> isFinished ?s" "\<not> sentIntro ?s"
    by (simp_all add: test_makeNoiseHandler test_state_def)
  have h: "(if isFinished ?s then encrypt test_env ?s (replicate 4294967296 0)
             else (?s, Inr (replicate 4294967296 0))) = (?s, Inr (replicate 4294967296 0))"
    using nf by simp
  have z: "ToInt32 4294967296 = 0"
    by (simp add: ToInt32_def)
  have hd: "NOISE_WA_HEADER test_env = [87, 65, 6, 2]"
    by (simp add: test_env_def)
  show ?thesis
    using encodeFrame_frame [OF h] nf by (simp add: z hd)
qed

subsection \<open>C10: the nonce holds the low 32 bits of the counter\<close>

text \<open>
  C10. \<open>generateIV\<close> writes only the low 32 bits of the counter into the 12-byte nonce: the
  first 8 bytes are zero and the last 4 are the counter modulo \<open>2^32\<close>, big-endian. Two
  counters that are congruent modulo \<open>2^32\<close> therefore give the same nonce, and \<open>encrypt\<close>
  and \<open>decrypt\<close> under the same key and hash return the same result for both.
\<close>

theorem generateIV_low_32_bits:
  assumes "c mod 2 ^ 32 = c' mod 2 ^ 32"
  shows "length (generateIV c) = 12
    \<and> take 8 (generateIV c) = replicate 8 0
    \<and> be_val (drop 8 (generateIV c)) = c mod 2 ^ 32
    \<and> generateIV c = generateIV c'
    \<and> snd (encrypt E (s\<lparr>writeCounter := c\<rparr>) p) = snd (encrypt E (s\<lparr>writeCounter := c'\<rparr>) p)
    \<and> snd (decrypt E (s\<lparr>readCounter := c, writeCounter := c\<rparr>) p)
          = snd (decrypt E (s\<lparr>readCounter := c', writeCounter := c'\<rparr>) p)"
proof -
  have iv: "generateIV c = generateIV c'"
    using assms by (simp only: generateIV_eq_iff)
  have "length (generateIV c) = 12"
    by (simp add: generateIV_bytes)
  moreover have "take 8 (generateIV c) = replicate 8 0"
    by (simp add: generateIV_bytes)
  moreover have "be_val (drop 8 (generateIV c)) = c mod 2 ^ 32"
    by (rule be_val_generateIV)
  moreover have "snd (encrypt E (s\<lparr>writeCounter := c\<rparr>) p)
      = snd (encrypt E (s\<lparr>writeCounter := c'\<rparr>) p)"
    by (simp add: encrypt_def iv Let_def split: option.splits prod.splits)
  moreover have "snd (decrypt E (s\<lparr>readCounter := c, writeCounter := c\<rparr>) p)
      = snd (decrypt E (s\<lparr>readCounter := c', writeCounter := c'\<rparr>) p)"
    by (simp add: decrypt_def iv Let_def split: option.splits)
  ultimately show ?thesis
    using iv by simp
qed

theorem generateIV_low_32_bits_witness:
  "(1 :: nat) mod 2 ^ 32 = 4294967297 mod 2 ^ 32
    \<and> generateIV 1 = generateIV 4294967297
    \<and> snd (encrypt test_env (makeNoiseHandler test_env [1]\<lparr>writeCounter := 1\<rparr>) [5])
        = snd (encrypt test_env (makeNoiseHandler test_env [1]\<lparr>writeCounter := 4294967297\<rparr>) [5])"
proof -
  have h: "(1 :: nat) mod 2 ^ 32 = 4294967297 mod 2 ^ 32"
    by simp
  show ?thesis
    using h generateIV_low_32_bits [OF h, of test_env "makeNoiseHandler test_env [1]" "[5]"]
    by simp
qed

end
